theory Spec2Isabelle
  imports Main
begin

section \<open>Outcomes of a call\<close>

text \<open>
  A call of the Go code either returns, panics (an index out of range, a nil
  dereference, the explicit \<^verbatim>\<open>panic\<close> of \<^verbatim>\<open>Parse\<close>), or does not return at all
  (unbounded recursion through include directives, the unbounded inner loop of
  \<^verbatim>\<open>CreateNode\<close>). Recursive functions carry a fuel argument; \<open>Timeout\<close> is the
  value of a call that has not returned within its fuel.
\<close>

datatype 'a res = Timeout | Panic | Ret 'a

fun bindR :: "'a res \<Rightarrow> ('a \<Rightarrow> 'b res) \<Rightarrow> 'b res" where
  "bindR Timeout f = Timeout"
| "bindR Panic f = Panic"
| "bindR (Ret x) f = f x"

text \<open>Indexing a slice: Go panics outside \<open>0 \<le> i < len\<close>.\<close>

definition idx :: "'a list \<Rightarrow> int \<Rightarrow> 'a res" where
  "idx xs i = (if 0 \<le> i \<and> i < int (length xs) then Ret (xs ! nat i) else Panic)"

section \<open>Data model\<close>

text \<open>
  \<^verbatim>\<open>text.Region\<close> and \<^verbatim>\<open>parser.Node\<close> belong to libraries outside the repository;
  the fields the code reads and writes are kept. The payload pointer \<^verbatim>\<open>P\<close> of a
  node (always the parser itself) is left out.
\<close>

record Region =
  A :: int
  B :: int

datatype Node = Node (Name: string) (Range: Region) (Children: "Node list")

datatype Capture = Capture (Key: int) (capName: string)

text \<open>
  The static part of \<^verbatim>\<open>Pattern\<close>. The regex type \<open>'r\<close> is opaque
  (\<^verbatim>\<open>textmate.Regex\<close>). The mutable cache fields live in the store below, and
  \<^verbatim>\<open>owner\<close> is the language instance of the pattern's address.
\<close>

datatype 'r Pattern = Pattern
  (patName: string)
  (Include: string)
  (Match: 'r)
  (Captures: "Capture list")
  (Begin: 'r)
  (BeginCaptures: "Capture list")
  (End: 'r)
  (EndCaptures: "Capture list")
  (Patterns: "'r Pattern list")

record 'r Language =
  ScopeName :: string
  RootPattern :: "'r Pattern"
  Repository :: "(string \<times> 'r Pattern) list"

text \<open>
  A \<^verbatim>\<open>*Pattern\<close> is an address: the loaded language instance, the root pattern
  (\<open>None\<close>) or a repository key, and the path of child indices through
  \<^verbatim>\<open>Patterns\<close>.
\<close>

datatype paddr = PAddr (inst: nat) (slot: "string option") (path: "nat list")

text \<open>The cache fields of one pattern; a nil slice or nil match is \<open>None\<close>.\<close>

record pcache =
  cachedData :: string
  cachedPat :: "paddr option"
  cachedPatterns :: "paddr list option"
  cachedMatch :: "int list option"
  hits :: int
  misses :: int

definition empty_cache :: pcache where
  "empty_cache = \<lparr>cachedData = [], cachedPat = None, cachedPatterns = None,
     cachedMatch = None, hits = 0, misses = 0\<rparr>"

text \<open>
  The mutable world: the language instances loaded so far, the cache fields of
  every pattern, and the two package variables \<^verbatim>\<open>provider.scope\<close> and \<^verbatim>\<open>failed\<close>.
\<close>

record 'r world =
  langs :: "'r Language list"
  caches :: "paddr \<Rightarrow> pcache"
  scope :: "string \<Rightarrow> string option"
  failed :: "string set"

text \<open>
  What the code takes from outside: the regex engine (\<^verbatim>\<open>Empty\<close>, \<^verbatim>\<open>Find\<close>) and
  the grammar files (\<^verbatim>\<open>ioutil.ReadFile\<close> followed by \<^verbatim>\<open>loaders.LoadPlist\<close>, which
  yields a tweaked language or an error).
\<close>

record 'r deps =
  Empty :: "'r \<Rightarrow> bool"
  Find :: "'r \<Rightarrow> string \<Rightarrow> int \<Rightarrow> int list option"
  files :: "string \<Rightarrow> 'r Language option"

definition maxiter :: int where
  "maxiter = 10000"

section \<open>Loading languages\<close>

definition Load :: "'r deps \<Rightarrow> 'r world \<Rightarrow> string \<Rightarrow> 'r world \<times> nat option" where
  "Load dp w filename =
     (case files dp filename of
        None \<Rightarrow> (w, None)
      | Some l \<Rightarrow>
          (w\<lparr>langs := langs w @ [l], scope := (scope w)(ScopeName l \<mapsto> filename)\<rparr>,
           Some (length (langs w))))"

definition LanguageFromScope :: "'r deps \<Rightarrow> 'r world \<Rightarrow> string \<Rightarrow> 'r world \<times> nat option" where
  "LanguageFromScope dp w ident =
     (case scope w ident of None \<Rightarrow> (w, None) | Some s \<Rightarrow> Load dp w s)"

definition GetLanguage :: "'r deps \<Rightarrow> 'r world \<Rightarrow> string \<Rightarrow> 'r world \<times> nat option" where
  "GetLanguage dp w ident =
     (case LanguageFromScope dp w ident of
        (w', None) \<Rightarrow> Load dp w' ident
      | (w', Some l) \<Rightarrow> (w', Some l))"

section \<open>Dereferencing pattern addresses\<close>

fun pat_at :: "'r Pattern \<Rightarrow> nat list \<Rightarrow> 'r Pattern option" where
  "pat_at p [] = Some p"
| "pat_at p (k # ks) =
     (if k < length (Patterns p) then pat_at (Patterns p ! k) ks else None)"

definition deref :: "'r world \<Rightarrow> paddr \<Rightarrow> 'r Pattern option" where
  "deref w a =
     (if inst a < length (langs w) then
        (case slot a of
           None \<Rightarrow> pat_at (RootPattern (langs w ! inst a)) (path a)
         | Some k \<Rightarrow>
             (case map_of (Repository (langs w ! inst a)) k of
                None \<Rightarrow> None
              | Some p \<Rightarrow> pat_at p (path a)))
      else None)"

definition child_addrs :: "paddr \<Rightarrow> 'r Pattern \<Rightarrow> paddr list" where
  "child_addrs a p =
     map (\<lambda>i. PAddr (inst a) (slot a) (path a @ [i])) [0..<length (Patterns p)]"

definition set_cache :: "'r world \<Rightarrow> paddr \<Rightarrow> pcache \<Rightarrow> 'r world" where
  "set_cache w a c = w\<lparr>caches := (caches w)(a := c)\<rparr>"

section \<open>The matcher: Cache and FirstMatch\<close>

text \<open>
  Lines 307 to 309 of \<^verbatim>\<open>Cache\<close>: record the haystack, the match and the
  producing pattern.
\<close>

definition record_match ::
  "'r world \<Rightarrow> paddr \<Rightarrow> string \<Rightarrow> paddr option \<Rightarrow> int list option
     \<Rightarrow> (paddr option \<times> int list option \<times> 'r world) res" where
  "record_match w p data pat ret =
     Ret (pat, ret,
          set_cache w p ((caches w p)\<lparr>cachedData := data, cachedMatch := ret, cachedPat := pat\<rparr>))"

text \<open>
  The removal of element \<open>i\<close> from \<^verbatim>\<open>p.cachedPatterns\<close> in \<^verbatim>\<open>FirstMatch\<close>
  (\<^verbatim>\<open>copy\<close> then reslice); the slice expressions panic when \<open>i + 1\<close> exceeds the
  length.
\<close>

definition live :: "'r world \<Rightarrow> paddr \<Rightarrow> paddr list" where
  "live w p = (case cachedPatterns (caches w p) of None \<Rightarrow> [] | Some l \<Rightarrow> l)"

definition pop_cached :: "'r world \<Rightarrow> paddr \<Rightarrow> nat \<Rightarrow> 'r world res" where
  "pop_cached w p i =
     (if Suc i \<le> length (live w p) then
        Ret (set_cache w p
               ((caches w p)\<lparr>cachedPatterns := Some (take i (live w p) @ drop (Suc i) (live w p))\<rparr>))
      else Panic)"

function (sequential) Cache ::
    "'r deps \<Rightarrow> nat \<Rightarrow> 'r world \<Rightarrow> paddr \<Rightarrow> string \<Rightarrow> int
       \<Rightarrow> (paddr option \<times> int list option \<times> 'r world) res"
  and Cache_miss ::
    "'r deps \<Rightarrow> nat \<Rightarrow> 'r world \<Rightarrow> paddr \<Rightarrow> string \<Rightarrow> int
       \<Rightarrow> (paddr option \<times> int list option \<times> 'r world) res"
  and FirstMatch_loop ::
    "'r deps \<Rightarrow> nat \<Rightarrow> 'r world \<Rightarrow> paddr \<Rightarrow> string \<Rightarrow> int \<Rightarrow> nat \<Rightarrow> int
       \<Rightarrow> paddr option \<Rightarrow> int list option
       \<Rightarrow> (paddr option \<times> int list option \<times> 'r world) res"
where
  "Cache dp 0 w p data pos = Timeout"
| "Cache dp (Suc n) w p data pos =
     (let c = caches w p in
      if cachedData c = data then
        (case cachedMatch c of
           None \<Rightarrow> Ret (None, None, w)
         | Some m \<Rightarrow>
             bindR (idx m 0) (\<lambda>m0.
               if m0 \<ge> pos then
                 (case cachedPat c of
                    None \<Rightarrow> Panic
                  | Some cp \<Rightarrow>
                      if cachedMatch (caches w cp) \<noteq> None then
                        Ret (Some cp, Some m, set_cache w p (c\<lparr>hits := hits c + 1\<rparr>))
                      else Cache_miss dp n w p data pos)
               else Cache_miss dp n w p data pos))
      else Cache_miss dp n (set_cache w p (c\<lparr>cachedPatterns := None\<rparr>)) p data pos)"
| "Cache_miss dp 0 w p data pos = Timeout"
| "Cache_miss dp (Suc n) w p data pos =
     (case deref w p of
        None \<Rightarrow> Panic
      | Some P \<Rightarrow>
          (let w1 = (if cachedPatterns (caches w p) = None
                     then set_cache w p ((caches w p)\<lparr>cachedPatterns := Some (child_addrs p P)\<rparr>)
                     else w);
               w2 = set_cache w1 p ((caches w1 p)\<lparr>misses := misses (caches w1 p) + 1\<rparr>)
           in
           if \<not> Empty dp (Match P) then
             record_match w2 p data (Some p) (Find dp (Match P) data pos)
           else if \<not> Empty dp (Begin P) then
             record_match w2 p data (Some p) (Find dp (Begin P) data pos)
           else if Include P \<noteq> [] then
             (if hd (Include P) = CHR ''#'' then
                (case map_of (Repository (langs w2 ! inst p)) (tl (Include P)) of
                   Some p2 \<Rightarrow>
                     bindR (Cache dp n w2 (PAddr (inst p) (Some (tl (Include P))) []) data pos)
                       (\<lambda>(pat, ret, w3). record_match w3 p data pat ret)
                 | None \<Rightarrow> record_match w2 p data None None)
              else if hd (Include P) = CHR ''$'' then
                record_match w2 p data None None
              else
                (case GetLanguage dp w2 (Include P) of
                   (w3, None) \<Rightarrow>
                     record_match (w3\<lparr>failed := insert (Include P) (failed w3)\<rparr>) p data None None
                 | (w3, Some l) \<Rightarrow> Cache dp n w3 (PAddr l None []) data pos))
           else
             bindR (FirstMatch_loop dp n w2 p data pos 0 (- 1) None None)
               (\<lambda>(pat, ret, w3). record_match w3 p data pat ret)))"
| "FirstMatch_loop dp 0 w p data pos i startIdx pat ret = Timeout"
| "FirstMatch_loop dp (Suc n) w p data pos i startIdx pat ret =
     (if i < length (live w p) then
        bindR (Cache dp n w (live w p ! i) data pos) (\<lambda>(ip, im, w').
          case im of
            Some m \<Rightarrow>
              bindR (idx m 0) (\<lambda>m0.
                if startIdx < 0 \<or> startIdx > m0 then
                  (if m0 = pos then Ret (ip, im, w')
                   else FirstMatch_loop dp n w' p data pos (Suc i) m0 ip im)
                else FirstMatch_loop dp n w' p data pos (Suc i) startIdx pat ret)
          | None \<Rightarrow>
              bindR (pop_cached w' p i) (\<lambda>w''.
                FirstMatch_loop dp n w'' p data pos i startIdx pat ret))
      else Ret (pat, ret, w))"
  by pat_completeness auto

termination
  by (relation "measure (\<lambda>x. case x of Inl (dp, n, r) \<Rightarrow> n | Inr (Inl (dp, n, r)) \<Rightarrow> n | Inr (Inr (dp, n, r)) \<Rightarrow> n)") auto

definition FirstMatch ::
  "'r deps \<Rightarrow> nat \<Rightarrow> 'r world \<Rightarrow> paddr \<Rightarrow> string \<Rightarrow> int
     \<Rightarrow> (paddr option \<times> int list option \<times> 'r world) res" where
  "FirstMatch dp n w p data pos = FirstMatch_loop dp n w p data pos 0 (- 1) None None"

section \<open>Capture nodes\<close>

text \<open>
  Modelled from the spec: \<^verbatim>\<open>Region.Begin\<close>, \<^verbatim>\<open>Region.End\<close> and \<^verbatim>\<open>Region.Covers\<close>
  of the text library are not under src/. A region covers another when it
  contains it, equal spans counting as coverage.
\<close>

definition Begin_of :: "Region \<Rightarrow> int" where
  "Begin_of r = min (A r) (B r)"

definition End_of :: "Region \<Rightarrow> int" where
  "End_of r = max (A r) (B r)"

definition Covers :: "Region \<Rightarrow> Region \<Rightarrow> bool" where
  "Covers r r2 =
     (Begin_of r2 \<ge> Begin_of r \<and> Begin_of r2 \<le> End_of r \<and> End_of r2 \<le> End_of r)"

text \<open>
  Modelled from the spec: \<^verbatim>\<open>Node.Append\<close> and \<^verbatim>\<open>Node.UpdateRange\<close> of the parser
  library are not under src/. \<open>UpdateRange\<close> recomputes the range from the
  children, recursively, and never shrinks it.
\<close>

definition Append :: "Node \<Rightarrow> Node \<Rightarrow> Node" where
  "Append n c = Node (Name n) (Range n) (Children n @ [c])"

definition widen :: "Region \<Rightarrow> Region \<Rightarrow> Region" where
  "widen r cur =
     (let r1 = (if Begin_of cur < A r then r\<lparr>A := Begin_of cur\<rparr> else r)
      in if End_of cur > B r1 then r1\<lparr>B := End_of cur\<rparr> else r1)"

fun UpdateRange :: "Node \<Rightarrow> Node" where
  "UpdateRange (Node nm r cs) =
     (let cs' = map UpdateRange cs
      in Node nm (foldl (\<lambda>r' c. widen r' (Range c)) r cs') cs')"

definition set_B :: "Node \<Rightarrow> int \<Rightarrow> Node" where
  "set_B n e = Node (Name n) ((Range n)\<lparr>B := e\<rparr>) (Children n)"

text \<open>
  A \<^verbatim>\<open>*parser.Node\<close> inside \<^verbatim>\<open>CreateCaptureNodes\<close> is a path of child indices
  below the caller's \<^verbatim>\<open>parent\<close>; the empty path is \<^verbatim>\<open>parent\<close> itself.
\<close>

function node_at :: "Node \<Rightarrow> nat list \<Rightarrow> Node option" where
  "node_at n [] = Some n"
| "node_at n (k # ks) =
     (if k < length (Children n) then node_at (Children n ! k) ks else None)"
  by pat_completeness auto

termination
proof (relation "measure (\<lambda>(n, ks). length ks)")
qed auto

function append_at :: "Node \<Rightarrow> nat list \<Rightarrow> Node \<Rightarrow> Node" where
  "append_at n [] c = Append n c"
| "append_at n (k # ks) c =
     (if k < length (Children n)
      then Node (Name n) (Range n) ((Children n)[k := append_at (Children n ! k) ks c])
      else n)"
  by pat_completeness auto

termination
proof (relation "measure (\<lambda>(n, ks, c). length ks)")
qed auto

definition ranges_of :: "int list \<Rightarrow> Region list" where
  "ranges_of mo =
     map (\<lambda>i. \<lparr>A = mo ! (i * 2 + 0), B = mo ! (i * 2 + 1)\<rparr>) [0..<length mo div 2]"

text \<open>The inner loop \<^verbatim>\<open>for j := i - 1; j >= 0; j--\<close>, entered with \<open>j + 1\<close>.\<close>

fun scan_cover :: "Region list \<Rightarrow> Region \<Rightarrow> nat \<Rightarrow> nat" where
  "scan_cover rs r 0 = 0"
| "scan_cover rs r (Suc j) = (if Covers (rs ! j) r then j else scan_cover rs r j)"

definition parentIndex_of :: "Region list \<Rightarrow> nat list" where
  "parentIndex_of rs =
     map (\<lambda>i. if i < 2 then 0 else scan_cover rs (rs ! i) i) [0..<length rs]"

definition parents_init :: "nat \<Rightarrow> nat list option list" where
  "parents_init n = map (\<lambda>i. if i < 2 then Some [] else None) [0..<n]"

text \<open>The loop \<^verbatim>\<open>for p == nil { i = parentIndex[i]; p = parents[i] }\<close>.\<close>

fun walk :: "nat \<Rightarrow> nat list \<Rightarrow> nat list option list \<Rightarrow> nat \<Rightarrow> nat list res" where
  "walk 0 pidx parents i = Timeout"
| "walk (Suc f) pidx parents i =
     (if i < length pidx then
        (if pidx ! i < length parents then
           (case parents ! (pidx ! i) of
              Some pth \<Rightarrow> Ret pth
            | None \<Rightarrow> walk f pidx parents (pidx ! i))
         else Panic)
      else Panic)"

text \<open>
  The second loop of \<^verbatim>\<open>CreateCaptureNodes\<close>. The slot \<^verbatim>\<open>parents[i]\<close> is written
  once the child's place is known; the walk never reads it, since it starts at
  \<^verbatim>\<open>parentIndex[i]\<close>.
\<close>

fun capture_loop ::
  "nat \<Rightarrow> Region list \<Rightarrow> nat list \<Rightarrow> Capture list \<Rightarrow> Node \<Rightarrow> nat list option list
     \<Rightarrow> Node res" where
  "capture_loop f rs pidx [] parent parents = Ret parent"
| "capture_loop f rs pidx (v # vs) parent parents =
     (if Key v \<ge> int (length parents) then capture_loop f rs pidx vs parent parents
      else if Key v < 0 then Panic
      else if A (rs ! nat (Key v)) = - 1 then capture_loop f rs pidx vs parent parents
      else if Key v = 0 then
        capture_loop f rs pidx vs
          (append_at parent [] (Node (capName v) (rs ! 0) []))
          (parents[0 := Some [length (Children parent)]])
      else
        bindR (walk f pidx parents (nat (Key v))) (\<lambda>pth.
          case node_at parent pth of
            None \<Rightarrow> Panic
          | Some pn \<Rightarrow>
              capture_loop f rs pidx vs
                (append_at parent pth (Node (capName v) (rs ! nat (Key v)) []))
                (parents[nat (Key v) := Some (pth @ [length (Children pn)])])))"

definition CreateCaptureNodes ::
  "nat \<Rightarrow> string \<Rightarrow> int \<Rightarrow> int list \<Rightarrow> Node \<Rightarrow> Capture list \<Rightarrow> Node res" where
  "CreateCaptureNodes f data pos mo parent capt =
     capture_loop f (ranges_of mo) (parentIndex_of (ranges_of mo)) capt parent
       (parents_init (length (ranges_of mo)))"

section \<open>Building nodes\<close>

text \<open>\<^verbatim>\<open>strings.IndexAny\<close> and \<^verbatim>\<open>strings.IndexRune\<close> for ASCII characters: the
  first byte offset holding one of them, or \<open>-1\<close>.\<close>

fun IndexAny :: "string \<Rightarrow> string \<Rightarrow> int" where
  "IndexAny [] chars = - 1"
| "IndexAny (c # s) chars =
     (if c \<in> set chars then 0
      else (let k = IndexAny s chars in if k = - 1 then - 1 else k + 1))"

definition IndexRune :: "string \<Rightarrow> char \<Rightarrow> int" where
  "IndexRune s c = IndexAny s [c]"

definition pick_captures :: "Capture list \<Rightarrow> Capture list \<Rightarrow> Capture list" where
  "pick_captures own fallback = (if length own > 0 then own else fallback)"

text \<open>
  One turn of the loop of \<^verbatim>\<open>CreateNode\<close> up to its decision: the end regex
  does not match from the cursor (\<open>NoEnd\<close>), a sub-pattern match is taken before
  the end (\<open>SubWins\<close>, with the pattern, its match and the new value of
  \<^verbatim>\<open>end\<close>), or the end match closes the region (\<open>EndWins\<close>).
\<close>

datatype decision = NoEnd | SubWins "paddr option" "int list" int | EndWins "int list" int

definition interleave ::
  "'r deps \<Rightarrow> nat \<Rightarrow> 'r world \<Rightarrow> paddr \<Rightarrow> 'r Pattern \<Rightarrow> string \<Rightarrow> Node \<Rightarrow> int
     \<Rightarrow> (decision \<times> 'r world) res" where
  "interleave dp n w p P data ret i =
     (case Find dp (End P) data i of
        None \<Rightarrow> Ret (NoEnd, w)
      | Some endmatch \<Rightarrow>
          bindR (idx endmatch 1) (\<lambda>end'.
            if length (live w p) > 0 then
              bindR (FirstMatch dp n w p data i) (\<lambda>(pattern2, match2, w').
                case match2 of
                  None \<Rightarrow> Ret (EndWins endmatch end', w')
                | Some m2 \<Rightarrow>
                    bindR (idx m2 0) (\<lambda>m20. bindR (idx endmatch 0) (\<lambda>e0.
                      if m20 < e0 \<or> (m20 = e0 \<and> A (Range ret) = B (Range ret))
                      then Ret (SubWins pattern2 m2 end', w')
                      else Ret (EndWins endmatch end', w'))))
            else Ret (EndWins endmatch end', w)))"

text \<open>The value of \<^verbatim>\<open>end\<close> when the end regex does not match from the cursor.\<close>

definition close_no_end :: "string \<Rightarrow> int \<Rightarrow> bool \<Rightarrow> int res" where
  "close_no_end data i found =
     (if \<not> found then
        (if i < 0 then Panic
         else if IndexRune (drop (nat i) data) (CHR 0x0A) \<noteq> - 1
         then Ret (i + IndexRune (drop (nat i) data) (CHR 0x0A))
         else Ret (int (length data)))
      else Ret i)"

text \<open>
  \<^verbatim>\<open>CreateNode\<close> and its loop over the region between begin and end. The loop
  returns the node built so far and the value of \<^verbatim>\<open>end\<close>; the assignment
  \<^verbatim>\<open>ret.Range.B = end\<close> and the deferred \<^verbatim>\<open>UpdateRange\<close> follow in \<open>CreateNode\<close>.
\<close>

function (sequential) CreateNode ::
    "'r deps \<Rightarrow> nat \<Rightarrow> 'r world \<Rightarrow> paddr \<Rightarrow> string \<Rightarrow> int \<Rightarrow> int list
       \<Rightarrow> (Node \<times> 'r world) res"
  and CreateNode_loop ::
    "'r deps \<Rightarrow> nat \<Rightarrow> 'r world \<Rightarrow> paddr \<Rightarrow> 'r Pattern \<Rightarrow> string \<Rightarrow> Node \<Rightarrow> int \<Rightarrow> int \<Rightarrow> bool
       \<Rightarrow> (Node \<times> int \<times> 'r world) res"
where
  "CreateNode dp 0 w p data pos mo = Timeout"
| "CreateNode dp (Suc n) w p data pos mo =
     (case deref w p of
        None \<Rightarrow> Panic
      | Some P \<Rightarrow>
          bindR (idx mo 0) (\<lambda>mo0. bindR (idx mo 1) (\<lambda>mo1.
          bindR (if \<not> Empty dp (Match P)
                 then CreateCaptureNodes n data pos mo (Node (patName P) \<lparr>A = mo0, B = mo1\<rparr> []) (Captures P)
                 else Ret (Node (patName P) \<lparr>A = mo0, B = mo1\<rparr> [])) (\<lambda>ret1.
          if Empty dp (Begin P) then Ret (UpdateRange ret1, w)
          else
            bindR (CreateCaptureNodes n data pos mo ret1 (pick_captures (BeginCaptures P) (Captures P))) (\<lambda>ret2.
            if Empty dp (End P) then Ret (UpdateRange ret2, w)
            else
              bindR (CreateNode_loop dp n w p P data ret2 (B (Range ret2)) (int (length data)) False)
                (\<lambda>(ret3, end, w'). Ret (UpdateRange (set_B ret3 end), w')))))))"
| "CreateNode_loop dp 0 w p P data ret i end found = Timeout"
| "CreateNode_loop dp (Suc n) w p P data ret i end found =
     (if i < int (length data) then
        bindR (interleave dp n w p P data ret i) (\<lambda>(d, w').
          case d of
            NoEnd \<Rightarrow> bindR (close_no_end data i found) (\<lambda>e. Ret (ret, e, w'))
          | SubWins pattern2 match2 end' \<Rightarrow>
              (case pattern2 of
                 None \<Rightarrow> Panic
               | Some p2 \<Rightarrow>
                   bindR (CreateNode dp n w' p2 data i match2) (\<lambda>(r, w'').
                     CreateNode_loop dp n w'' p P data (Append ret r) (B (Range r)) end' True))
          | EndWins endmatch end' \<Rightarrow>
              bindR (CreateCaptureNodes n data i endmatch ret
                       (pick_captures (EndCaptures P) (Captures P)))
                (\<lambda>ret'. Ret (ret', end', w')))
      else Ret (ret, end, w))"
  by pat_completeness auto

termination
  by (relation "measure (\<lambda>x. case x of Inl (dp, n, r) \<Rightarrow> n | Inr (dp, n, r) \<Rightarrow> n)") auto

section \<open>The driver\<close>

text \<open>
  The conversion \<^verbatim>\<open>string(p.data)\<close>: each rune is encoded in UTF-8, a rune that
  is no valid code point as U+FFFD.
\<close>

definition encode_rune :: "int \<Rightarrow> string" where
  "encode_rune r =
     (if r < 0 \<or> r > 0x10FFFF \<or> (0xD800 \<le> r \<and> r \<le> 0xDFFF) then
        [char_of (0xEF :: int), char_of (0xBF :: int), char_of (0xBD :: int)]
      else if r < 0x80 then [char_of r]
      else if r < 0x800 then [char_of (0xC0 + r div 64), char_of (0x80 + r mod 64)]
      else if r < 0x10000 then
        [char_of (0xE0 + r div 4096), char_of (0x80 + (r div 64) mod 64), char_of (0x80 + r mod 64)]
      else
        [char_of (0xF0 + r div 262144), char_of (0x80 + (r div 4096) mod 64),
         char_of (0x80 + (r div 64) mod 64), char_of (0x80 + r mod 64)])"

definition to_string :: "int list \<Rightarrow> string" where
  "to_string rs = concat (map encode_rune rs)"

text \<open>
  The width of the first rune of a string as \<^verbatim>\<open>range\<close> over a string decodes it
  (\<^verbatim>\<open>utf8.DecodeRuneInString\<close>): an invalid or truncated sequence has width 1.
\<close>

definition cont_byte :: "string \<Rightarrow> nat \<Rightarrow> nat \<Rightarrow> nat \<Rightarrow> bool" where
  "cont_byte s k lo hi = (k < length s \<and> lo \<le> (of_char (s ! k) :: nat) \<and> (of_char (s ! k) :: nat) \<le> hi)"

definition DecodeWidth :: "string \<Rightarrow> nat" where
  "DecodeWidth s =
     (let b0 = (of_char (hd s) :: nat) in
      if b0 < 0x80 then 1
      else if b0 < 0xC2 then 1
      else if b0 < 0xE0 then (if cont_byte s 1 0x80 0xBF then 2 else 1)
      else if b0 < 0xF0 then
        (if cont_byte s 1 (if b0 = 0xE0 then 0xA0 else 0x80) (if b0 = 0xED then 0x9F else 0xBF)
            \<and> cont_byte s 2 0x80 0xBF then 3 else 1)
      else if b0 < 0xF5 then
        (if cont_byte s 1 (if b0 = 0xF0 then 0x90 else 0x80) (if b0 = 0xF4 then 0x8F else 0xBF)
            \<and> cont_byte s 2 0x80 0xBF \<and> cont_byte s 3 0x80 0xBF then 4 else 1)
      else 1)"

text \<open>The byte offsets that \<^verbatim>\<open>for i := range sdata\<close> visits, from offset \<open>off\<close> on.\<close>

function range_offsets :: "string \<Rightarrow> nat \<Rightarrow> nat list" where
  "range_offsets s off =
     (if s = [] then [] else off # range_offsets (drop (DecodeWidth s) s) (off + DecodeWidth s))"
  by pat_completeness auto

termination
proof (relation "measure (\<lambda>(s, off). length s)")
  show "wf (measure (\<lambda>(s, off). length s))" by simp
next
  fix s :: string and off :: nat
  assume "s \<noteq> []"
  moreover have "0 < DecodeWidth s"
    by (simp add: DecodeWidth_def Let_def)
  ultimately show "((drop (DecodeWidth s) s, off + DecodeWidth s), (s, off)) \<in> measure (\<lambda>(s, off). length s)"
    by simp
qed

text \<open>The table \<^verbatim>\<open>lut\<close>: zeroed, filled at the visited offsets, then the terminal entry.\<close>

fun fill_lut :: "int list \<Rightarrow> nat list \<Rightarrow> int \<Rightarrow> int list" where
  "fill_lut lut [] j = lut"
| "fill_lut lut (i # is) j = fill_lut (lut[i := j]) is (j + 1)"

definition build_lut :: "int list \<Rightarrow> int list" where
  "build_lut data =
     (fill_lut (replicate (length (to_string data) + 1) 0) (range_offsets (to_string data) 0) 0)
       [length (to_string data) := int (length data)]"

function patch :: "int list \<Rightarrow> Node \<Rightarrow> Node res"
  and patch_children :: "int list \<Rightarrow> Node list \<Rightarrow> Node list res" where
  "patch lut (Node nm r cs) =
     bindR (idx lut (A r)) (\<lambda>a. bindR (idx lut (B r)) (\<lambda>b.
       bindR (patch_children lut cs) (\<lambda>cs'. Ret (Node nm \<lparr>A = a, B = b\<rparr> cs'))))"
| "patch_children lut [] = Ret []"
| "patch_children lut (c # cs) =
     bindR (patch lut c) (\<lambda>c'. bindR (patch_children lut cs) (\<lambda>cs'. Ret (c' # cs')))"
  by pat_completeness auto

termination
  by (relation "measure (\<lambda>x. case x of Inl (lut, n) \<Rightarrow> size n | Inr (lut, ns) \<Rightarrow> size_list size ns)") auto

text \<open>The inner loop that skips newline bytes.\<close>

function skip_newlines :: "string \<Rightarrow> nat \<Rightarrow> nat" where
  "skip_newlines s i =
     (if i < length s \<and> (s ! i = CHR 0x0A \<or> s ! i = CHR 0x0D) then skip_newlines s (Suc i) else i)"
  by pat_completeness auto

termination
  by (relation "measure (\<lambda>(s, i). length s - i)") auto

text \<open>The absolute offset of the next line break at or after \<open>i\<close>, or \<open>-1\<close>.\<close>

definition next_nl :: "string \<Rightarrow> int \<Rightarrow> int" where
  "next_nl sdata i =
     (if IndexAny (drop (nat i) sdata) [CHR 0x0A, CHR 0x0D] \<noteq> - 1
      then IndexAny (drop (nat i) sdata) [CHR 0x0A, CHR 0x0D] + i
      else - 1)"

text \<open>
  One turn of the main loop of \<^verbatim>\<open>Parse\<close>: the loop is left (\<open>Break\<close>), the
  position moves past a line break and no node is built (\<open>Fast\<close>, with the new
  position), or a node is built (\<open>Built\<close>).
\<close>

datatype turn = Break | Fast int | Built Node

definition Parse_turn ::
  "'r deps \<Rightarrow> nat \<Rightarrow> 'r world \<Rightarrow> paddr \<Rightarrow> string \<Rightarrow> int \<Rightarrow> (turn \<times> 'r world) res" where
  "Parse_turn dp fuel w root sdata i =
     bindR (Cache dp fuel w root sdata i) (\<lambda>(pat, ret, w').
       if i < 0 then Panic
       else
         (case ret of
            None \<Rightarrow> Ret (Break, w')
          | Some m \<Rightarrow>
              bindR (if next_nl sdata i > 0
                     then bindR (idx m 0) (\<lambda>m0. Ret (next_nl sdata i \<le> m0))
                     else Ret False) (\<lambda>fast.
                if fast then
                  Ret (Fast (int (skip_newlines sdata (nat (next_nl sdata i)))), w')
                else
                  (case pat of
                     None \<Rightarrow> Panic
                   | Some pa \<Rightarrow>
                       bindR (CreateNode dp fuel w' pa sdata i m) (\<lambda>(n, w'').
                         Ret (Built n, w''))))))"

text \<open>
  The main loop of \<^verbatim>\<open>Parse\<close>, with \<open>iter\<close> the turns left. It returns the root
  node, the final \<open>iter\<close> and the world.
\<close>

function (sequential) Parse_loop ::
  "'r deps \<Rightarrow> nat \<Rightarrow> 'r world \<Rightarrow> paddr \<Rightarrow> string \<Rightarrow> Node \<Rightarrow> int \<Rightarrow> nat
     \<Rightarrow> (Node \<times> nat \<times> 'r world) res" where
  "Parse_loop dp fuel w root sdata rn i 0 = Ret (rn, 0, w)"
| "Parse_loop dp fuel w root sdata rn i (Suc iter) =
     (if i < int (length sdata) then
        bindR (Parse_turn dp fuel w root sdata i) (\<lambda>(t, w').
          case t of
            Break \<Rightarrow> Ret (rn, Suc iter, w')
          | Fast i' \<Rightarrow> Parse_loop dp fuel w' root sdata rn i' iter
          | Built n \<Rightarrow> Parse_loop dp fuel w' root sdata (Append rn n) (B (Range n)) iter)
      else Ret (rn, Suc iter, w))"
  by pat_completeness auto

termination
  by (relation "measure (\<lambda>(dp, fuel, w, root, sdata, rn, i, iter). iter)") auto

text \<open>
  The body of \<^verbatim>\<open>Parse\<close> up to its \<^verbatim>\<open>return\<close>: the loop, \<^verbatim>\<open>UpdateRange\<close>, the
  rewrite of the ranges through \<^verbatim>\<open>lut\<close>, and the panic when the budget is used
  up. \<open>l\<close> is the language instance of the parser.
\<close>

definition Parse_body ::
  "'r deps \<Rightarrow> nat \<Rightarrow> 'r world \<Rightarrow> nat \<Rightarrow> int list \<Rightarrow> (Node \<times> 'r world) res" where
  "Parse_body dp fuel w l data =
     (if l < length (langs w) then
        bindR (Parse_loop dp fuel w (PAddr l None []) (to_string data)
                 (Node (ScopeName (langs w ! l)) \<lparr>A = 0, B = 0\<rparr> []) 0 (nat maxiter))
          (\<lambda>(rn, iter, w').
             bindR (if length (to_string data) \<noteq> 0
                    then patch (build_lut data) (UpdateRange rn)
                    else Ret (UpdateRange rn)) (\<lambda>rn'.
               if iter = 0 then Panic else Ret (rn', w')))
      else Panic)"

text \<open>
  \<^verbatim>\<open>Parse\<close> as its caller sees it. The first statement after the string
  conversion reads \<^verbatim>\<open>p.l.ScopeName\<close>, before the deferred function is installed:
  with no language the panic reaches the caller. From then on the deferred
  function recovers every panic and only logs, so the unnamed results keep
  their zero values \<^verbatim>\<open>(nil, nil)\<close>; a normal return is \<^verbatim>\<open>(&rn, nil)\<close>. No path
  sets the error.
\<close>

datatype error = Error string

definition Parse ::
  "'r deps \<Rightarrow> nat \<Rightarrow> 'r world \<Rightarrow> nat \<Rightarrow> int list \<Rightarrow> (Node option \<times> error option) res" where
  "Parse dp fuel w l data =
     (if l < length (langs w) then
        (case Parse_body dp fuel w l data of
           Timeout \<Rightarrow> Timeout
         | Panic \<Rightarrow> Ret (None, None)
         | Ret (rn, w') \<Rightarrow> Ret (Some rn, None))
      else Panic)"

section \<open>Notions used by the properties\<close>

text \<open>A null match for the haystack \<open>data\<close> is recorded in the cache of \<open>p\<close>.\<close>

definition null_recorded :: "'r world \<Rightarrow> paddr \<Rightarrow> string \<Rightarrow> bool" where
  "null_recorded w p data = (cachedData (caches w p) = data \<and> cachedMatch (caches w p) = None)"

text \<open>Successive \<^verbatim>\<open>Cache\<close> queries of one pattern against one haystack.\<close>

fun Cache_seq ::
  "'r deps \<Rightarrow> nat \<Rightarrow> 'r world \<Rightarrow> paddr \<Rightarrow> string \<Rightarrow> int list
     \<Rightarrow> ((paddr option \<times> int list option) list \<times> 'r world) res" where
  "Cache_seq dp n w p data [] = Ret ([], w)"
| "Cache_seq dp n w p data (pos # ps) =
     bindR (Cache dp n w p data pos) (\<lambda>(pat, ret, w').
       bindR (Cache_seq dp n w' p data ps) (\<lambda>(rs, w''). Ret ((pat, ret) # rs, w'')))"

text \<open>Two passes over the same input on the same instance.\<close>

definition Parse_twice ::
  "'r deps \<Rightarrow> nat \<Rightarrow> 'r world \<Rightarrow> nat \<Rightarrow> int list \<Rightarrow> (Node \<times> Node) res" where
  "Parse_twice dp fuel w l data =
     bindR (Parse_body dp fuel w l data) (\<lambda>(t1, w1).
       bindR (Parse_body dp fuel w1 l data) (\<lambda>(t2, w2). Ret (t1, t2)))"

section \<open>A small regex engine and grammars for concrete runs\<close>

text \<open>
  A regex is absent or a literal; a literal is found at its first occurrence at
  or after the start, the empty literal matching with zero width.
\<close>

datatype rx = NoRx | Lit string

fun search :: "string \<Rightarrow> string \<Rightarrow> int \<Rightarrow> int option" where
  "search lit [] k = (if lit = [] then Some k else None)"
| "search lit (c # s) k =
     (if take (length lit) (c # s) = lit then Some k else search lit s (k + 1))"

definition lit_find :: "string \<Rightarrow> string \<Rightarrow> int \<Rightarrow> int list option" where
  "lit_find lit data pos =
     (if pos < 0 \<or> pos > int (length data) then None
      else (case search lit (drop (nat pos) data) pos of
              None \<Rightarrow> None
            | Some k \<Rightarrow> Some [k, k + int (length lit)]))"

definition toy :: "rx deps" where
  "toy = \<lparr>Empty = (\<lambda>r. r = NoRx),
          Find = (\<lambda>r data pos. case r of NoRx \<Rightarrow> None | Lit l \<Rightarrow> lit_find l data pos),
          files = (\<lambda>f. None)\<rparr>"

definition mk :: "string \<Rightarrow> rx \<Rightarrow> rx \<Rightarrow> rx \<Rightarrow> rx Pattern list \<Rightarrow> rx Pattern" where
  "mk nm m b e ps = Pattern nm [] m [] b [] e [] ps"

definition grammar :: "rx Pattern list \<Rightarrow> rx Language" where
  "grammar ps = \<lparr>ScopeName = ''source.x'', RootPattern = mk [] NoRx NoRx NoRx ps, Repository = []\<rparr>"

definition fresh :: "rx Language \<Rightarrow> rx world" where
  "fresh l = \<lparr>langs = [l], caches = (\<lambda>a. empty_cache), scope = (\<lambda>s. None), failed = {}\<rparr>"

definition root0 :: paddr where
  "root0 = PAddr 0 None []"

definition rn0 :: Node where
  "rn0 = Node ''source.x'' \<lparr>A = 0, B = 0\<rparr> []"

text \<open>One match pattern for the literal \<open>42\<close>.\<close>

definition lang_numeric :: "rx Language" where
  "lang_numeric = grammar [mk ''constant.numeric'' (Lit ''42'') NoRx NoRx []]"

text \<open>One match pattern whose regex matches with zero width everywhere.\<close>

definition lang_zero :: "rx Language" where
  "lang_zero = grammar [mk ''z'' (Lit []) NoRx NoRx []]"

definition znode :: Node where
  "znode = Node ''z'' \<lparr>A = 0, B = 0\<rparr> []"

text \<open>The world of \<open>lang_zero\<close> after the first turn over \<open>ab\<close>, and after \<open>h\<close> cache hits
  of the root pattern.\<close>

definition world_zero :: "int \<Rightarrow> rx world" where
  "world_zero h =
     \<lparr>langs = [lang_zero],
      caches = (\<lambda>a. empty_cache)
        (PAddr 0 None [0] :=
           \<lparr>cachedData = ''ab'', cachedPat = Some (PAddr 0 None [0]), cachedPatterns = Some [],
            cachedMatch = Some [0, 0], hits = 0, misses = 1\<rparr>,
         PAddr 0 None [] :=
           \<lparr>cachedData = ''ab'', cachedPat = Some (PAddr 0 None [0]),
            cachedPatterns = Some [PAddr 0 None [0]],
            cachedMatch = Some [0, 0], hits = h, misses = 1\<rparr>),
      scope = (\<lambda>s. None), failed = {}\<rparr>"

text \<open>The world of \<open>lang_numeric\<close> once the match pattern has found nothing in
  \<open>abc 42 xy\<close> from offset 6 on.\<close>

definition world_numeric_null :: "rx world" where
  "world_numeric_null =
     \<lparr>langs = [lang_numeric],
      caches = (\<lambda>a. empty_cache)
        (PAddr 0 None [0] :=
           \<lparr>cachedData = ''abc 42 xy'', cachedPat = Some (PAddr 0 None [0]), cachedPatterns = Some [],
            cachedMatch = None, hits = 0, misses = 1\<rparr>),
      scope = (\<lambda>s. None), failed = {}\<rparr>"

text \<open>The root node of a loop result.\<close>

definition loop_tree :: "(Node \<times> nat \<times> 'r world) res \<Rightarrow> Node res" where
  "loop_tree r = bindR r (\<lambda>(rn, iter, w). Ret rn)"

text \<open>The outcome of a turn or of a decision, without the world.\<close>

definition outcome :: "('a \<times> 'r world) res \<Rightarrow> 'a res" where
  "outcome r = bindR r (\<lambda>(t, w). Ret t)"

text \<open>Fuel for the concrete runs.\<close>

definition fuel12 :: nat where
  "fuel12 = Suc (Suc (Suc (Suc (Suc (Suc (Suc (Suc (Suc (Suc (Suc (Suc 0)))))))))))"

definition LF :: char where
  "LF = CHR 0x0A"

definition CR :: char where
  "CR = CHR 0x0D"

text \<open>The byte offset at which rune \<open>k\<close> of the input starts in its encoding.\<close>

definition byte_offset :: "int list \<Rightarrow> nat \<Rightarrow> nat" where
  "byte_offset data k = length (to_string (take k data))"

text \<open>A tree with the begin and end of every range, descendants included, looked
  up in a table; and the trees whose offsets all lie inside the table.\<close>

fun rewrite :: "int list \<Rightarrow> Node \<Rightarrow> Node" where
  "rewrite lut (Node nm r cs) =
     Node nm \<lparr>A = lut ! nat (A r), B = lut ! nat (B r)\<rparr> (map (rewrite lut) cs)"

fun in_table :: "int list \<Rightarrow> Node \<Rightarrow> bool" where
  "in_table lut (Node nm r cs) =
     (0 \<le> A r \<and> A r < int (length lut) \<and> 0 \<le> B r \<and> B r < int (length lut) \<and>
      (\<forall>c \<in> set cs. in_table lut c))"

text \<open>The world of \<open>lang_numeric\<close> after a whole pass over \<open>a 42 x\<close>.\<close>

definition world_numeric_done :: "rx world" where
  "world_numeric_done =
     \<lparr>langs = [lang_numeric],
      caches = (\<lambda>a. empty_cache)
        (PAddr 0 None [0] :=
           \<lparr>cachedData = ''a 42 x'', cachedPat = Some (PAddr 0 None [0]), cachedPatterns = Some [],
            cachedMatch = None, hits = 0, misses = 2\<rparr>,
         PAddr 0 None [] :=
           \<lparr>cachedData = ''a 42 x'', cachedPat = None, cachedPatterns = Some [],
            cachedMatch = None, hits = 0, misses = 2\<rparr>),
      scope = (\<lambda>s. None), failed = {}\<rparr>"

text \<open>The world of \<open>lang_numeric\<close> after the loop over the encoding of U+00E9 and \<open>42\<close>.\<close>

definition world_e42 :: "rx world" where
  "world_e42 =
     \<lparr>langs = [lang_numeric],
      caches = (\<lambda>a. empty_cache)
        (PAddr 0 None [0] :=
           \<lparr>cachedData = [CHR 0xC3, CHR 0xA9, CHR ''4'', CHR ''2''],
            cachedPat = Some (PAddr 0 None [0]), cachedPatterns = Some [],
            cachedMatch = Some [2, 4], hits = 0, misses = 1\<rparr>,
         PAddr 0 None [] :=
           \<lparr>cachedData = [CHR 0xC3, CHR 0xA9, CHR ''4'', CHR ''2''],
            cachedPat = Some (PAddr 0 None [0]), cachedPatterns = Some [PAddr 0 None [0]],
            cachedMatch = Some [2, 4], hits = 0, misses = 1\<rparr>),
      scope = (\<lambda>s. None), failed = {}\<rparr>"

text \<open>The world of \<open>lang_numeric\<close> after one turn over the encoding of U+00E9, a line
  feed and \<open>42\<close>.\<close>

definition world_nl :: "rx world" where
  "world_nl =
     \<lparr>langs = [lang_numeric],
      caches = (\<lambda>a. empty_cache)
        (PAddr 0 None [0] :=
           \<lparr>cachedData = [CHR 0xC3, CHR 0xA9, CHR 0x0A, CHR ''4'', CHR ''2''],
            cachedPat = Some (PAddr 0 None [0]), cachedPatterns = Some [],
            cachedMatch = Some [3, 5], hits = 0, misses = 1\<rparr>,
         PAddr 0 None [] :=
           \<lparr>cachedData = [CHR 0xC3, CHR 0xA9, CHR 0x0A, CHR ''4'', CHR ''2''],
            cachedPat = Some (PAddr 0 None [0]), cachedPatterns = Some [PAddr 0 None [0]],
            cachedMatch = Some [3, 5], hits = 0, misses = 1\<rparr>),
      scope = (\<lambda>s. None), failed = {}\<rparr>"

text \<open>The number of nodes of a tree.\<close>

fun num_nodes :: "Node \<Rightarrow> nat" where
  "num_nodes (Node nm r cs) = Suc (sum_list (map num_nodes cs))"

text \<open>A capture whose group exists in the match and took part in it.\<close>

definition present :: "int list \<Rightarrow> Capture \<Rightarrow> bool" where
  "present mo v =
     (0 \<le> Key v \<and> Key v < int (length mo div 2) \<and> mo ! (nat (Key v) * 2) \<noteq> - 1)"

text \<open>
  \<open>j\<close> is the enclosing group of group \<open>i\<close>: the highest-indexed group below
  \<open>i\<close> whose span covers that of \<open>i\<close>, or group 0 when no group below does.
\<close>

definition nearest_cover :: "Region list \<Rightarrow> nat \<Rightarrow> nat \<Rightarrow> bool" where
  "nearest_cover rs i j =
     ((j < i \<and> Covers (rs ! j) (rs ! i) \<and>
         (\<forall>j'. j < j' \<and> j' < i \<longrightarrow> \<not> Covers (rs ! j') (rs ! i)))
      \<or> (j = 0 \<and> (\<forall>j' < i. \<not> Covers (rs ! j') (rs ! i))))"

text \<open>The group reached from \<open>i\<close> after \<open>k\<close> steps to the enclosing group.\<close>

fun chain :: "nat list \<Rightarrow> nat \<Rightarrow> nat \<Rightarrow> nat" where
  "chain pidx i 0 = i"
| "chain pidx i (Suc k) = pidx ! (chain pidx i k)"

text \<open>
  The pointers held in \<^verbatim>\<open>parents\<close> are in order: one slot per group, the slot of
  group 0 filled, and every filled slot a path to a node of the tree.
\<close>

definition paths_ok :: "Region list \<Rightarrow> Node \<Rightarrow> nat list option list \<Rightarrow> bool" where
  "paths_ok rs parent parents =
     (length parents = length rs \<and> (0 < length rs \<longrightarrow> parents ! 0 \<noteq> None) \<and>
      (\<forall>j pth. j < length parents \<and> parents ! j = Some pth \<longrightarrow> node_at parent pth \<noteq> None))"

text \<open>A match whose groups 0 and 1 both span 0 to 10 and whose group 2 spans 2 to 5,
  with a capture for each group.\<close>

definition mo3 :: "int list" where
  "mo3 = [0, 10, 0, 10, 2, 5]"

definition capt3 :: "Capture list" where
  "capt3 = [Capture 0 ''z'', Capture 1 ''a'', Capture 2 ''b'']"

definition parent3 :: Node where
  "parent3 = Node ''p'' \<lparr>A = 0, B = 10\<rparr> []"

subsection \<open>The parenting rule of the capture nodes\<close>

text \<open>
  The enclosing group of group \<open>i\<close>, as a function: group 0 for groups 0 and 1,
  else the highest-indexed group below \<open>i\<close> whose span covers that of \<open>i\<close>, and
  group 0 when no group below does.
\<close>

definition enclosing :: "Region list \<Rightarrow> nat \<Rightarrow> nat" where
  "enclosing rs i =
     (if i < 2 then 0
      else (case filter (\<lambda>j. Covers (rs ! j) (rs ! i)) (rev [0..<i]) of
              [] \<Rightarrow> 0
            | j # js \<Rightarrow> j))"

text \<open>
  \<open>made\<close> lists the nodes created so far, newest first, each with its group and
  the path of the node below the caller's parent. The node that stands for
  group \<open>j\<close> is the newest node of \<open>j\<close>; groups 0 and 1 stand for the caller's
  parent node (the empty path) as long as they have no node of their own; any
  other group without a node stands for nothing.
\<close>

definition stands_for :: "(nat \<times> nat list) list \<Rightarrow> nat \<Rightarrow> nat list option" where
  "stands_for made j =
     (case map_of made j of
        Some pth \<Rightarrow> Some pth
      | None \<Rightarrow> if j < 2 then Some [] else None)"

text \<open>The place of the node of a group \<open>i \<ge> 1\<close>: up the chain of enclosing groups
  from \<open>i\<close>, the node that stands for the first group that stands for one.\<close>

function climb :: "Region list \<Rightarrow> (nat \<times> nat list) list \<Rightarrow> nat \<Rightarrow> nat list" where
  "climb rs made i =
     (case stands_for made (enclosing rs i) of
        Some pth \<Rightarrow> pth
      | None \<Rightarrow> climb rs made (enclosing rs i))"
  by pat_completeness auto

termination
proof (relation "measure (\<lambda>(rs, made, i). i)")
  show "wf (measure (\<lambda>(rs :: Region list, made :: (nat \<times> nat list) list, i). i))" by simp
next
  fix rs :: "Region list" and made :: "(nat \<times> nat list) list" and i
  assume "stands_for made (enclosing rs i) = None"
  then have a: "2 \<le> enclosing rs i"
    by (auto simp: stands_for_def split: option.splits if_splits)
  then have i: "\<not> i < 2" by (auto simp: enclosing_def)
  with a obtain j js where f: "filter (\<lambda>j. Covers (rs ! j) (rs ! i)) (rev [0..<i]) = j # js"
    and e: "enclosing rs i = j"
    by (cases "filter (\<lambda>j. Covers (rs ! j) (rs ! i)) (rev [0..<i])") (auto simp: enclosing_def)
  from f have "j \<in> set (filter (\<lambda>j. Covers (rs ! j) (rs ! i)) (rev [0..<i]))" by simp
  then have "j < i" by simp
  with e show "((rs, made, enclosing rs i), (rs, made, i)) \<in> measure (\<lambda>(rs, made, i). i)" by simp
qed

text \<open>
  The rule for the whole capture list: a capture whose group is out of range
  or took no part in the match is skipped; the node of group 0 is appended to
  the caller's parent; the node of any other group is appended at its place.
\<close>

fun spec_capture_loop ::
  "Region list \<Rightarrow> Capture list \<Rightarrow> Node \<Rightarrow> (nat \<times> nat list) list \<Rightarrow> Node" where
  "spec_capture_loop rs [] parent made = parent"
| "spec_capture_loop rs (v # vs) parent made =
     (if Key v \<ge> int (length rs) \<or> A (rs ! nat (Key v)) = - 1
      then spec_capture_loop rs vs parent made
      else
        (let i = nat (Key v);
             pth = (if i = 0 then [] else climb rs made i);
             k = (case node_at parent pth of None \<Rightarrow> 0 | Some pn \<Rightarrow> length (Children pn))
         in spec_capture_loop rs vs (append_at parent pth (Node (capName v) (rs ! i) []))
              ((i, pth @ [k]) # made)))"

definition spec_capture_nodes :: "int list \<Rightarrow> Node \<Rightarrow> Capture list \<Rightarrow> Node" where
  "spec_capture_nodes mo parent capt = spec_capture_loop (ranges_of mo) capt parent []"

subsection \<open>Offsets inside the input\<close>

text \<open>
  Offsets within the text: a match span none of whose entries lies past the end
  of the text, a regex engine that only returns such spans for the text, caches
  that only hold such spans for the text, and a tree none of whose ranges
  reaches past an offset.
\<close>

definition span_ok :: "string \<Rightarrow> int list \<Rightarrow> bool" where
  "span_ok data m = list_all (\<lambda>x. x \<le> int (length data)) m"

definition opt_ok :: "string \<Rightarrow> int list option \<Rightarrow> bool" where
  "opt_ok data ret = (case ret of None \<Rightarrow> True | Some m \<Rightarrow> span_ok data m)"

definition spans_ok :: "'r deps \<Rightarrow> string \<Rightarrow> bool" where
  "spans_ok dp data = (\<forall>r pos. opt_ok data (Find dp r data pos))"

definition cache_ok :: "'r world \<Rightarrow> string \<Rightarrow> bool" where
  "cache_ok w data =
     (\<forall>p. cachedData (caches w p) = data \<longrightarrow> opt_ok data (cachedMatch (caches w p)))"


text \<open>
  The matcher keeps recorded matches inside the input: at fuel \<open>n\<close>, every call that
  returns from a world whose recorded matches lie inside the input leaves such a
  world and returns a match inside the input.
\<close>

definition matcher_ok :: "'r deps \<Rightarrow> string \<Rightarrow> nat \<Rightarrow> bool" where
  "matcher_ok dp data n =
     ((\<forall>w p pos pat ret w'. cache_ok w data \<longrightarrow> Cache dp n w p data pos = Ret (pat, ret, w') \<longrightarrow>
          cache_ok w' data \<and> opt_ok data ret) \<and>
      (\<forall>w p pos pat ret w'. cache_ok w data \<longrightarrow> Cache_miss dp n w p data pos = Ret (pat, ret, w') \<longrightarrow>
          cache_ok w' data \<and> opt_ok data ret) \<and>
      (\<forall>w p pos i s pat0 ret0 pat ret w'. cache_ok w data \<longrightarrow> opt_ok data ret0 \<longrightarrow>
          FirstMatch_loop dp n w p data pos i s pat0 ret0 = Ret (pat, ret, w') \<longrightarrow>
          cache_ok w' data \<and> opt_ok data ret))"



subsection \<open>A region whose end regex stops matching\<close>

text \<open>
  A range pattern from \<open><<\<close> to \<open>>>\<close> with one sub-pattern for \<open>y>\<close>, the text
  \<open><<y>>\<close> followed by a line feed and \<open>z\<close>, and the world once the begin regex
  has matched at offset 0.
\<close>

definition block_pattern :: "rx Pattern" where
  "block_pattern = mk ''block'' NoRx (Lit ''<<'') (Lit ''>>'') [mk ''word'' (Lit ''y>'') NoRx NoRx []]"

definition lang_block :: "rx Language" where
  "lang_block = grammar [block_pattern]"

definition data_block :: string where
  "data_block = ''<<y>>'' @ [LF] @ ''z''"

definition world_block :: "rx world" where
  "world_block =
     \<lparr>langs = [lang_block],
      caches = (\<lambda>a. empty_cache)
        (PAddr 0 None [0] :=
           \<lparr>cachedData = data_block, cachedPat = Some (PAddr 0 None [0]),
            cachedPatterns = Some [PAddr 0 None [0, 0]],
            cachedMatch = Some [0, 2], hits = 0, misses = 1\<rparr>),
      scope = (\<lambda>s. None), failed = {}\<rparr>"


subsection \<open>Sub-patterns before the end of a region\<close>

text \<open>At fuel \<open>n\<close>, a call of the matcher that returns a match returns the pattern
  that produced it.\<close>

definition names_match :: "'r deps \<Rightarrow> string \<Rightarrow> nat \<Rightarrow> bool" where
  "names_match dp data n =
     ((\<forall>w p pos pat m w'. Cache dp n w p data pos = Ret (pat, Some m, w') \<longrightarrow> pat \<noteq> None) \<and>
      (\<forall>w p pos pat m w'. Cache_miss dp n w p data pos = Ret (pat, Some m, w') \<longrightarrow> pat \<noteq> None) \<and>
      (\<forall>w p pos i s pat0 ret0 pat m w'. (ret0 \<noteq> None \<longrightarrow> pat0 \<noteq> None) \<longrightarrow>
          FirstMatch_loop dp n w p data pos i s pat0 ret0 = Ret (pat, Some m, w') \<longrightarrow> pat \<noteq> None))"

text \<open>
  A range pattern from \<open><<\<close> to \<open>>>\<close> with one sub-pattern for \<open>TODO\<close>, and the text
  \<open><< TODO >>\<close>.
\<close>

definition note_pattern :: "rx Pattern" where
  "note_pattern = mk ''note'' NoRx (Lit ''<<'') (Lit ''>>'') [mk ''todo'' (Lit ''TODO'') NoRx NoRx []]"

definition lang_note :: "rx Language" where
  "lang_note = grammar [note_pattern]"

definition data_note :: string where
  "data_note = ''<< TODO >>''"

text \<open>
  The worlds of a run over that text: once the begin regex has matched at
  offset 0, once the sub-pattern has matched from offset 2, and once it has found
  nothing from offset 7 and has left the live list.
\<close>

definition note_cache :: "paddr list \<Rightarrow> pcache" where
  "note_cache l =
     \<lparr>cachedData = data_note, cachedPat = Some (PAddr 0 None [0]),
      cachedPatterns = Some l, cachedMatch = Some [0, 2], hits = 0, misses = 1\<rparr>"

definition todo_cache :: "int list option \<Rightarrow> int \<Rightarrow> pcache" where
  "todo_cache m k =
     \<lparr>cachedData = data_note, cachedPat = Some (PAddr 0 None [0, 0]),
      cachedPatterns = Some [], cachedMatch = m, hits = 0, misses = k\<rparr>"

definition note_world :: "(paddr \<Rightarrow> pcache) \<Rightarrow> rx world" where
  "note_world f = \<lparr>langs = [lang_note], caches = f, scope = (\<lambda>s. None), failed = {}\<rparr>"

definition note_w0 :: "rx world" where
  "note_w0 = note_world ((\<lambda>a. empty_cache)(PAddr 0 None [0] := note_cache [PAddr 0 None [0, 0]]))"

definition note_w1 :: "rx world" where
  "note_w1 = note_world ((\<lambda>a. empty_cache)
     (PAddr 0 None [0] := note_cache [PAddr 0 None [0, 0]],
      PAddr 0 None [0, 0] := todo_cache (Some [3, 7]) 1))"

definition note_w2 :: "rx world" where
  "note_w2 = note_world ((\<lambda>a. empty_cache)
     (PAddr 0 None [0] := note_cache [PAddr 0 None [0, 0]],
      PAddr 0 None [0, 0] := todo_cache None 2,
      PAddr 0 None [0] := note_cache []))"

text \<open>The outer node before its end is set, with the children given, and the node
  of the sub-pattern.\<close>

definition note_node :: "Node list \<Rightarrow> Node" where
  "note_node cs = Node ''note'' \<lparr>A = 0, B = 2\<rparr> cs"

definition todo_node :: Node where
  "todo_node = Node ''todo'' \<lparr>A = 3, B = 7\<rparr> []"

subsection \<open>The record of a search among the children\<close>
















subsection \<open>A sub-pattern of zero width\<close>

text \<open>
  A range pattern from \<open><\<close> to \<open>>\<close> whose one sub-pattern matches with zero width
  everywhere; the world over the text \<open><a>\<close> once the begin regex has matched at
  offset 0; and the world after the sub-pattern has matched at offset 1 and its
  cache has been hit \<open>h\<close> times.
\<close>

definition stuck_pattern :: "rx Pattern" where
  "stuck_pattern = mk ''r'' NoRx (Lit ''<'') (Lit ''>'') [mk ''z'' (Lit []) NoRx NoRx []]"

definition lang_stuck :: "rx Language" where
  "lang_stuck = grammar [stuck_pattern]"

definition stuck_base :: "paddr \<Rightarrow> pcache" where
  "stuck_base = (\<lambda>a. empty_cache)
     (PAddr 0 None [] :=
        \<lparr>cachedData = [], cachedPat = None, cachedPatterns = Some [PAddr 0 None [0]],
         cachedMatch = None, hits = 0, misses = 1\<rparr>,
      PAddr 0 None [0] :=
        \<lparr>cachedData = ''<a>'', cachedPat = Some (PAddr 0 None [0]),
         cachedPatterns = Some [PAddr 0 None [0, 0]], cachedMatch = Some [0, 1],
         hits = 0, misses = 1\<rparr>,
      PAddr 0 None [] :=
        \<lparr>cachedData = ''<a>'', cachedPat = Some (PAddr 0 None [0]),
         cachedPatterns = Some [PAddr 0 None [0]], cachedMatch = Some [0, 1],
         hits = 0, misses = 1\<rparr>)"

definition stuck_begin :: "rx world" where
  "stuck_begin = \<lparr>langs = [lang_stuck], caches = stuck_base, scope = (\<lambda>s. None), failed = {}\<rparr>"

definition stuck_world :: "int \<Rightarrow> rx world" where
  "stuck_world h =
     \<lparr>langs = [lang_stuck],
      caches = stuck_base
        (PAddr 0 None [0, 0] :=
           \<lparr>cachedData = ''<a>'', cachedPat = Some (PAddr 0 None [0, 0]),
            cachedPatterns = Some [], cachedMatch = Some [1, 1], hits = h, misses = 1\<rparr>),
      scope = (\<lambda>s. None), failed = {}\<rparr>"

section \<open>Evaluation rules\<close>

declare Cache.simps [simp del] CreateNode.simps [simp del] Parse_loop.simps [simp del]
  skip_newlines.simps [simp del] range_offsets.simps [simp del]


lemmas model_defs = deref_def child_addrs_def set_cache_def
  record_match_def pop_cached_def live_def idx_def empty_cache_def FirstMatch_def
  Begin_of_def End_of_def Covers_def Append_def widen_def set_B_def ranges_of_def parentIndex_of_def
  parents_init_def CreateCaptureNodes_def IndexRune_def pick_captures_def Let_def
  interleave_def close_no_end_def next_nl_def Parse_turn_def

lemmas toy_defs = toy_def mk_def grammar_def fresh_def root0_def rn0_def lit_find_def

lemma bindR_Ret_iff: "bindR m f = Ret y \<longleftrightarrow> (\<exists>x. m = Ret x \<and> f x = Ret y)"
  by (cases m) simp_all

lemma bindR_not_Timeout:
  "m \<noteq> Timeout \<Longrightarrow> (\<And>x. f x \<noteq> Timeout) \<Longrightarrow> bindR m f \<noteq> Timeout"
  by (cases m) simp_all

lemma idx_not_Timeout: "idx xs i \<noteq> Timeout"
  by (simp add: idx_def)

section \<open>The recorded null match is sticky\<close>

lemma Cache_null_recorded:
  "null_recorded w p data \<Longrightarrow> Cache dp (Suc n) w p data pos = Ret (None, None, w)"
  by (simp add: null_recorded_def Let_def Cache.simps)

lemma record_match_null_recorded:
  "record_match w p data pat None = Ret (pat', ret', w') \<Longrightarrow> null_recorded w' p data"
  by (auto simp: record_match_def null_recorded_def set_cache_def)

lemma Cache_seq_null_recorded:
  "null_recorded w p data \<Longrightarrow>
     Cache_seq dp (Suc n) w p data ps = Ret (map (\<lambda>pos. (None, None)) ps, w)"
  by (induction ps) (simp_all add: Cache_null_recorded)

text \<open>
  C10. Once the cache of a pattern records a null match for a haystack, every
  later \<^verbatim>\<open>Cache\<close> query of that pattern against the same haystack returns
  \<^verbatim>\<open>(nil, nil)\<close> at every position, earlier ones included, and leaves the world
  as it is, so the record stands for the queries that follow. The result is the
  same for every regex engine: none is consulted.
\<close>

theorem Cache_sticky_null:
  "null_recorded w p data \<Longrightarrow>
     Cache dp (Suc n) w p data pos = Ret (None, None, w) \<and>
     Cache_seq dp (Suc n) w p data ps = Ret (map (\<lambda>pos. (None, None)) ps, w)"
  by (simp add: Cache_null_recorded Cache_seq_null_recorded)

text \<open>
  The record is written by a real query: the pattern for \<open>42\<close> finds nothing in
  \<open>abc 42 xy\<close> from offset 6 on; asked again from offset 0, where the regex
  would match at 4, it answers null.
\<close>

theorem Cache_sticky_null_witness:
  "Cache toy 2 (fresh lang_numeric) (PAddr 0 None [0]) ''abc 42 xy'' 6
     = Ret (Some (PAddr 0 None [0]), None, world_numeric_null) \<and>
   null_recorded world_numeric_null (PAddr 0 None [0]) ''abc 42 xy'' \<and>
   Find toy (Lit ''42'') ''abc 42 xy'' 0 = Some [4, 6] \<and>
   Cache toy (Suc 0) world_numeric_null (PAddr 0 None [0]) ''abc 42 xy'' 0
     = Ret (None, None, world_numeric_null) \<and>
   Cache_seq toy (Suc 0) world_numeric_null (PAddr 0 None [0]) ''abc 42 xy'' [0, 4, 9]
     = Ret ([(None, None), (None, None), (None, None)], world_numeric_null)"
proof -
  have rec: "null_recorded world_numeric_null (PAddr 0 None [0]) ''abc 42 xy''"
    by (simp add: null_recorded_def world_numeric_null_def)
  have q: "Cache toy 2 (fresh lang_numeric) (PAddr 0 None [0]) ''abc 42 xy'' 6
     = Ret (Some (PAddr 0 None [0]), None, world_numeric_null)"
    by (simp add: Cache.simps numeral_eq_Suc model_defs toy_defs lang_numeric_def
        world_numeric_null_def)
  have f: "Find toy (Lit ''42'') ''abc 42 xy'' 0 = Some [4, 6]"
    by (simp add: toy_defs)
  show ?thesis
    using Cache_sticky_null [OF rec, of toy 0 0 "[0, 4, 9]"] rec q f
    by (simp del: Cache_seq.simps)
qed

lemma bindR_Timeout_iff:
  "bindR m f = Timeout \<longleftrightarrow> m = Timeout \<or> (\<exists>x. m = Ret x \<and> f x = Timeout)"
  by (cases m) simp_all

section \<open>The iteration budget\<close>

lemma patch_not_Timeout:
  "patch lut n \<noteq> Timeout" "patch_children lut ns \<noteq> Timeout"
  by (induction lut n and lut ns rule: patch_patch_children.induct)
     (auto simp: bindR_Timeout_iff idx_not_Timeout)

lemma zero_turns:
  "Parse_loop toy (Suc f) (world_zero h) root0 ''ab'' (Node nm r cs) 0 k
     = Ret (Node nm r (cs @ replicate k znode), 0, world_zero (h + int k))"
proof (induction k arbitrary: h cs)
  case 0
  show ?case by (simp add: Parse_loop.simps)
next
  case (Suc k)
  have step: "Parse_loop toy (Suc f) (world_zero h) root0 ''ab'' (Node nm r cs) 0 (Suc k)
     = Parse_loop toy (Suc f) (world_zero (h + 1)) root0 ''ab'' (Node nm r (cs @ [znode])) 0 k"
    by (simp add: Parse_loop.simps Cache.simps CreateNode.simps model_defs toy_defs
        world_zero_def lang_zero_def znode_def)
  show ?case
    by (simp add: step Suc.IH replicate_app_Cons_same ac_simps)
qed

lemma zero_first:
  "Parse_loop toy fuel12 (fresh lang_zero) root0 ''ab'' rn0 0 (Suc k)
     = Parse_loop toy fuel12 (world_zero 0) root0 ''ab'' (Append rn0 znode) 0 k"
  by (simp add: Parse_loop.simps Cache.simps CreateNode.simps model_defs toy_defs
        world_zero_def lang_zero_def znode_def fuel12_def)

lemma zero_all:
  "Parse_loop toy fuel12 (fresh lang_zero) root0 ''ab'' rn0 0 (Suc k)
     = Ret (Node ''source.x'' \<lparr>A = 0, B = 0\<rparr> ([znode] @ replicate k znode), 0, world_zero (int k))"
proof -
  have "Parse_loop toy fuel12 (world_zero 0) root0 ''ab'' (Append rn0 znode) 0 k
     = Ret (Node ''source.x'' \<lparr>A = 0, B = 0\<rparr> ([znode] @ replicate k znode), 0, world_zero (int k))"
    using zero_turns [of "fuel12 - 1" 0 "''source.x''" "\<lparr>A = 0, B = 0\<rparr>" "[znode]" k]
    by (simp add: rn0_def Append_def fuel12_def)
  then show ?thesis by (simp only: zero_first)
qed

text \<open>
  C1. When the main loop has used up its budget (it returns with no turn
  left), \<^verbatim>\<open>Parse\<close> panics after the loop, the deferred function recovers, and
  the caller receives \<^verbatim>\<open>(nil, nil)\<close>: the tree is not returned, and neither is
  an error.
\<close>

theorem Parse_budget_exhausted:
  assumes "l < length (langs w)"
    and "Parse_loop dp fuel w (PAddr l None []) (to_string data)
           (Node (ScopeName (langs w ! l)) \<lparr>A = 0, B = 0\<rparr> []) 0 (nat maxiter) = Ret (rn, 0, w')"
  shows "Parse dp fuel w l data = Ret (None, None)"
proof -
  have "patch (build_lut data) (UpdateRange rn) \<noteq> Timeout"
    by (rule patch_not_Timeout)
  then have "Parse_body dp fuel w l data = Panic"
    using assms by (cases "patch (build_lut data) (UpdateRange rn)") (simp_all add: Parse_body_def)
  then show ?thesis using assms(1) by (simp add: Parse_def)
qed

text \<open>
  The grammar whose only pattern matches with zero width, over the text \<open>ab\<close>:
  all 10000 turns build a node at offset 0, and the call returns \<^verbatim>\<open>(nil, nil)\<close>.
\<close>

theorem Parse_budget_exhausted_witness:
  "Parse_loop toy fuel12 (fresh lang_zero) (PAddr 0 None []) (to_string [0x61, 0x62])
      (Node (ScopeName (langs (fresh lang_zero) ! 0)) \<lparr>A = 0, B = 0\<rparr> []) 0 (nat maxiter)
     = Ret (Node ''source.x'' \<lparr>A = 0, B = 0\<rparr> ([znode] @ replicate 9999 znode), 0, world_zero 9999) \<and>
   Parse toy fuel12 (fresh lang_zero) 0 [0x61, 0x62] = Ret (None, None)"
proof -
  have len: "0 < length (langs (fresh lang_zero))" by (simp add: fresh_def)
  have "to_string [0x61, 0x62] = ''ab''"
    by (simp add: to_string_def encode_rune_def char_of_def)
  moreover have "(Node (ScopeName (langs (fresh lang_zero) ! 0)) \<lparr>A = 0, B = 0\<rparr> []) = rn0"
    by (simp add: toy_defs lang_zero_def)
  moreover have "nat maxiter = Suc 9999" by (simp add: maxiter_def)
  ultimately have run: "Parse_loop toy fuel12 (fresh lang_zero) (PAddr 0 None []) (to_string [0x61, 0x62])
           (Node (ScopeName (langs (fresh lang_zero) ! 0)) \<lparr>A = 0, B = 0\<rparr> []) 0 (nat maxiter)
       = Ret (Node ''source.x'' \<lparr>A = 0, B = 0\<rparr> ([znode] @ replicate 9999 znode), 0, world_zero 9999)"
    using zero_all [of 9999] by (simp only: root0_def) simp
  show ?thesis
    using Parse_budget_exhausted [OF len run] run by blast
qed

section \<open>The driver loop\<close>

lemma Parse_loop_pos:
  "0 < k \<Longrightarrow> Parse_loop dp fuel w root sdata rn i k =
     (if i < int (length sdata) then
        bindR (Parse_turn dp fuel w root sdata i) (\<lambda>(t, w').
          case t of
            Break \<Rightarrow> Ret (rn, k, w')
          | Fast i' \<Rightarrow> Parse_loop dp fuel w' root sdata rn i' (k - 1)
          | Built n \<Rightarrow> Parse_loop dp fuel w' root sdata (Append rn n) (B (Range n)) (k - 1))
      else Ret (rn, k, w))"
proof (cases k)
  case 0
  assume "0 < k"
  with 0 show ?thesis by simp
next
  case (Suc m)
  show ?thesis unfolding Suc diff_Suc_1 by (rule Parse_loop.simps)
qed


lemma IndexAny_found:
  "IndexAny s cs \<noteq> - 1 \<Longrightarrow>
     0 \<le> IndexAny s cs \<and> nat (IndexAny s cs) < length s \<and> s ! nat (IndexAny s cs) \<in> set cs"
proof (induction s)
  case Nil
  then show ?case by simp
next
  case (Cons c s)
  show ?case
  proof (cases "c \<in> set cs")
    case True
    then show ?thesis by simp
  next
    case False
    with Cons.prems have ne: "IndexAny s cs \<noteq> - 1"
      by (auto simp: Let_def split: if_splits)
    from Cons.IH [OF ne] False ne show ?thesis
      by (simp add: Let_def nat_add_distrib)
  qed
qed

lemma skip_newlines_ge: "i \<le> skip_newlines s i"
  by (induction s i rule: skip_newlines.induct) (subst skip_newlines.simps, auto)

lemma skip_newlines_le: "i \<le> length s \<Longrightarrow> skip_newlines s i \<le> length s"
  by (induction s i rule: skip_newlines.induct) (subst skip_newlines.simps, auto)

lemma skip_newlines_gt:
  "i < length s \<Longrightarrow> s ! i = CHR 0x0A \<or> s ! i = CHR 0x0D \<Longrightarrow> i < skip_newlines s i"
  using skip_newlines_ge [of "Suc i" s] by (subst skip_newlines.simps) auto

lemma Parse_turn_Fast:
  assumes "Parse_turn dp fuel w root sdata i = Ret (Fast i', w')"
  shows "i < i' \<and> i' \<le> int (length sdata)"
proof -
  let ?k = "IndexAny (drop (nat i) sdata) [CHR 0x0A, CHR 0x0D]"
  from assms have i0: "0 \<le> i" and pos: "next_nl sdata i > 0"
    and i': "i' = int (skip_newlines sdata (nat (next_nl sdata i)))"
    by (auto simp: Parse_turn_def bindR_Ret_iff split: if_splits option.splits prod.splits)
  from pos have ne: "?k \<noteq> - 1" and nl: "next_nl sdata i = ?k + i"
    by (auto simp: next_nl_def split: if_splits)
  from IndexAny_found [OF ne] have k0: "0 \<le> ?k" and klt: "nat ?k < length (drop (nat i) sdata)"
    and mem: "drop (nat i) sdata ! nat ?k \<in> {CHR 0x0A, CHR 0x0D}"
    by auto
  have idx: "nat (?k + i) = nat i + nat ?k" using i0 k0 by (simp add: nat_add_distrib)
  have lt: "nat (?k + i) < length sdata" using klt idx by (simp add: less_diff_conv ac_simps)
  have ch: "sdata ! nat (?k + i) = CHR 0x0A \<or> sdata ! nat (?k + i) = CHR 0x0D"
    using mem klt by (simp add: idx)
  from skip_newlines_gt [OF lt ch] skip_newlines_le [of "nat (?k + i)" sdata] lt
  show ?thesis using i0 k0 by (simp add: i' nl)
qed

lemma Parse_loop_budget:
  "Parse_loop dp fuel w root sdata rn i iter = Ret (rn', iter', w') \<Longrightarrow>
     iter' \<le> iter \<and> length (Children rn') + iter' \<le> length (Children rn) + iter"
proof (induction iter arbitrary: w rn i)
  case 0
  then show ?case by (simp add: Parse_loop.simps)
next
  case (Suc iter)
  show ?case
  proof (cases "i < int (length sdata)")
    case False
    with Suc.prems show ?thesis by (simp add: Parse_loop.simps)
  next
    case True
    with Suc.prems obtain t w1 where
      turn: "Parse_turn dp fuel w root sdata i = Ret (t, w1)"
      and rest: "(case t of
            Break \<Rightarrow> Ret (rn, Suc iter, w1)
          | Fast i' \<Rightarrow> Parse_loop dp fuel w1 root sdata rn i' iter
          | Built n \<Rightarrow> Parse_loop dp fuel w1 root sdata (Append rn n) (B (Range n)) iter)
          = Ret (rn', iter', w')"
      by (auto simp: Parse_loop.simps bindR_Ret_iff)
    show ?thesis
    proof (cases t)
      case Break
      with rest show ?thesis by simp
    next
      case (Fast j)
      with rest Suc.IH [of w1 rn j] show ?thesis by simp
    next
      case (Built n)
      with rest Suc.IH [of w1 "Append rn n" "B (Range n)"] show ?thesis
        by (simp add: Append_def)
    qed
  qed
qed


lemmas run_defs = Parse_body_def maxiter_def Parse_loop_pos Cache.simps CreateNode.simps
  model_defs toy_defs fuel12_def to_string_def encode_rune_def char_of_def build_lut_def
  range_offsets.simps DecodeWidth_def cont_byte_def skip_newlines.simps LF_def CR_def

text \<open>
  C6. The guard of the fast path is \<^verbatim>\<open>nl > 0\<close>, so a line break at offset 0 is
  not taken as one. Over the text made of a line feed and \<open>42\<close>, the first turn
  finds the line break at offset 0, before the match at 1, and yet builds the
  node; with one more byte in front, the line break at offset 1 is at or before
  the match at 2, and the turn moves past it and builds no node.
\<close>

theorem newline_at_offset_0_not_skipped:
  "next_nl [LF, CHR ''4'', CHR ''2''] 0 = 0 \<and>
   Find toy (Lit ''42'') [LF, CHR ''4'', CHR ''2''] 0 = Some [1, 3] \<and>
   outcome (Parse_turn toy fuel12 (fresh lang_numeric) root0 [LF, CHR ''4'', CHR ''2''] 0)
     = Ret (Built (Node ''constant.numeric'' \<lparr>A = 1, B = 3\<rparr> [])) \<and>
   next_nl [CHR ''a'', LF, CHR ''4'', CHR ''2''] 0 = 1 \<and>
   Find toy (Lit ''42'') [CHR ''a'', LF, CHR ''4'', CHR ''2''] 0 = Some [2, 4] \<and>
   outcome (Parse_turn toy fuel12 (fresh lang_numeric) root0 [CHR ''a'', LF, CHR ''4'', CHR ''2''] 0)
     = Ret (Fast 2)"
  by (simp add: outcome_def run_defs lang_numeric_def)

lemma Parse_loop_closed:
  assumes step: "\<And>w0 i0. I w0 i0 \<Longrightarrow> Parse_turn dp fuel w0 root sdata i0 \<noteq> Timeout \<and>
           (\<forall>t w1. Parse_turn dp fuel w0 root sdata i0 = Ret (t, w1) \<longrightarrow>
              (case t of Break \<Rightarrow> True | Fast i' \<Rightarrow> I w1 i' | Built n \<Rightarrow> I w1 (B (Range n))))"
  shows "I w i \<Longrightarrow> Parse_loop dp fuel w root sdata rn i iter \<noteq> Timeout"
proof (induction iter arbitrary: w rn i)
  case 0
  show ?case by (simp add: Parse_loop.simps)
next
  case (Suc iter)
  from step [OF Suc.prems] have nt: "Parse_turn dp fuel w root sdata i \<noteq> Timeout"
    and nx: "\<And>t w1. Parse_turn dp fuel w root sdata i = Ret (t, w1) \<Longrightarrow>
              (case t of Break \<Rightarrow> True | Fast i' \<Rightarrow> I w1 i' | Built n \<Rightarrow> I w1 (B (Range n)))"
    by blast+
  show ?case
  proof (cases "Parse_turn dp fuel w root sdata i")
    case Timeout
    with nt show ?thesis by simp
  next
    case Panic
    then show ?thesis by (simp add: Parse_loop.simps)
  next
    case (Ret x)
    obtain t w1 where x: "x = (t, w1)" by (cases x)
    show ?thesis
    proof (cases t)
      case Break
      with Ret x show ?thesis by (simp add: Parse_loop.simps)
    next
      case (Fast i')
      with nx [of t w1] Ret x have "I w1 i'" by simp
      from Suc.IH [OF this] Ret x Fast show ?thesis by (simp add: Parse_loop.simps)
    next
      case (Built n)
      with nx [of t w1] Ret x have "I w1 (B (Range n))" by simp
      from Suc.IH [OF this] Ret x Built show ?thesis by (simp add: Parse_loop.simps)
    qed
  qed
qed

lemma zero_turn_first:
  "Parse_turn toy fuel12 (fresh lang_zero) root0 ''ab'' 0 = Ret (Built znode, world_zero 0)"
  by (simp add: Cache.simps CreateNode.simps model_defs toy_defs
        world_zero_def lang_zero_def znode_def fuel12_def)

lemma zero_turn_next:
  "Parse_turn toy fuel12 (world_zero h) root0 ''ab'' 0 = Ret (Built znode, world_zero (h + 1))"
  by (simp add: Cache.simps CreateNode.simps model_defs toy_defs
        world_zero_def lang_zero_def znode_def fuel12_def)

text \<open>
  C7, as the claim states it, fails: with the zero-width pattern both turns of
  a budget of two build a node at offset 0, so the first turn neither advances
  the position nor ends the loop.
\<close>

theorem zero_width_turn_no_progress:
  "Parse_loop toy fuel12 (fresh lang_zero) root0 ''ab'' rn0 0 (Suc (Suc 0))
     = Ret (Node ''source.x'' \<lparr>A = 0, B = 0\<rparr> [znode, znode], 0, world_zero 1)"
  using zero_all [of "Suc 0"] by simp

text \<open>
  C7, amended. A turn that takes the line-break fast path moves the position
  forward by at least one byte and not past the end of the text; and the main
  loop makes at most as many turns as its budget allows, each adding at most
  one node to the root: the turns left never grow, and the nodes added are at
  most the turns used. The loop itself never fails to return: from a start
  inside a set \<open>I\<close> of worlds and positions that the turns do not leave and
  from which every turn returns, the loop returns, whatever its budget. (A turn
  that builds a node continues at the node's end, which need not advance; and a
  call inside a turn need not return, as the last section shows.)
\<close>

theorem Parse_loop_bounded:
  "(Parse_turn dp fuel w root sdata i = Ret (Fast i', w1) \<longrightarrow>
      i < i' \<and> i' \<le> int (length sdata)) \<and>
   (Parse_loop dp fuel w root sdata rn i iter = Ret (rn', iter', w') \<longrightarrow>
      iter' \<le> iter \<and> length (Children rn') + iter' \<le> length (Children rn) + iter) \<and>
   (I w i \<and>
    (\<forall>w0 i0. I w0 i0 \<longrightarrow> Parse_turn dp fuel w0 root sdata i0 \<noteq> Timeout \<and>
       (\<forall>t w1. Parse_turn dp fuel w0 root sdata i0 = Ret (t, w1) \<longrightarrow>
          (case t of Break \<Rightarrow> True | Fast i' \<Rightarrow> I w1 i' | Built n \<Rightarrow> I w1 (B (Range n))))) \<longrightarrow>
      Parse_loop dp fuel w root sdata rn i iter \<noteq> Timeout)"
proof (intro conjI impI)
  assume "Parse_turn dp fuel w root sdata i = Ret (Fast i', w1)"
  from Parse_turn_Fast [OF this] show "i < i'" and "i' \<le> int (length sdata)" by simp_all
next
  assume "Parse_loop dp fuel w root sdata rn i iter = Ret (rn', iter', w')"
  from Parse_loop_budget [OF this]
  show "iter' \<le> iter" and "length (Children rn') + iter' \<le> length (Children rn) + iter"
    by simp_all
next
  assume a: "I w i \<and>
    (\<forall>w0 i0. I w0 i0 \<longrightarrow> Parse_turn dp fuel w0 root sdata i0 \<noteq> Timeout \<and>
       (\<forall>t w1. Parse_turn dp fuel w0 root sdata i0 = Ret (t, w1) \<longrightarrow>
          (case t of Break \<Rightarrow> True | Fast i' \<Rightarrow> I w1 i' | Built n \<Rightarrow> I w1 (B (Range n)))))"
  then have "I w i" by simp
  moreover from a have "\<And>w0 i0. I w0 i0 \<Longrightarrow> Parse_turn dp fuel w0 root sdata i0 \<noteq> Timeout \<and>
       (\<forall>t w1. Parse_turn dp fuel w0 root sdata i0 = Ret (t, w1) \<longrightarrow>
          (case t of Break \<Rightarrow> True | Fast i' \<Rightarrow> I w1 i' | Built n \<Rightarrow> I w1 (B (Range n))))"
    by blast
  ultimately show "Parse_loop dp fuel w root sdata rn i iter \<noteq> Timeout"
    by (rule Parse_loop_closed [rotated])
qed

text \<open>
  The fast path over the encoding of U+00E9, a line feed and \<open>42\<close>; and the
  zero-width pattern over \<open>ab\<close>, where every turn from the fresh world and from
  the worlds that follow builds a node at offset 0 and returns, so the loop
  returns with its whole budget of 10000 turns.
\<close>

theorem Parse_loop_bounded_witness:
  "Parse_turn toy fuel12 (fresh lang_numeric) root0 [CHR 0xC3, CHR 0xA9, LF, CHR ''4'', CHR ''2''] 0
     = Ret (Fast 3, world_nl) \<and> (0 :: int) < 3 \<and>
   (3 :: int) \<le> int (length [CHR 0xC3, CHR 0xA9, LF, CHR ''4'', CHR ''2'']) \<and>
   Parse_loop toy fuel12 (fresh lang_zero) root0 ''ab'' rn0 0 (Suc (Suc 0))
     = Ret (Node ''source.x'' \<lparr>A = 0, B = 0\<rparr> [znode, znode], 0, world_zero 1) \<and>
   (0 :: nat) \<le> Suc (Suc 0) \<and>
   length (Children (Node ''source.x'' \<lparr>A = 0, B = 0\<rparr> [znode, znode])) + 0
     \<le> length (Children rn0) + Suc (Suc 0) \<and>
   Parse_turn toy fuel12 (fresh lang_zero) root0 ''ab'' 0 = Ret (Built znode, world_zero 0) \<and>
   (\<forall>h. Parse_turn toy fuel12 (world_zero h) root0 ''ab'' 0 = Ret (Built znode, world_zero (h + 1))) \<and>
   B (Range znode) = 0 \<and>
   Parse_loop toy fuel12 (fresh lang_zero) root0 ''ab'' rn0 0 (nat maxiter) \<noteq> Timeout"
proof -
  have t: "Parse_turn toy fuel12 (fresh lang_numeric) root0
             [CHR 0xC3, CHR 0xA9, LF, CHR ''4'', CHR ''2''] 0 = Ret (Fast 3, world_nl)"
    by (simp add: run_defs lang_numeric_def world_nl_def)
  have l: "Parse_loop toy fuel12 (fresh lang_zero) root0 ''ab'' rn0 0 (Suc (Suc 0))
     = Ret (Node ''source.x'' \<lparr>A = 0, B = 0\<rparr> [znode, znode], 0, world_zero 1)"
    using zero_all [of "Suc 0"] by simp
  have zb: "B (Range znode) = 0" by (simp add: znode_def)
  let ?I = "\<lambda>w (i :: int). i = 0 \<and> (w = fresh lang_zero \<or> (\<exists>h. w = world_zero h))"
  have closed: "\<forall>w0 i0. ?I w0 i0 \<longrightarrow>
       Parse_turn toy fuel12 w0 root0 ''ab'' i0 \<noteq> Timeout \<and>
       (\<forall>t w1. Parse_turn toy fuel12 w0 root0 ''ab'' i0 = Ret (t, w1) \<longrightarrow>
          (case t of Break \<Rightarrow> True | Fast i' \<Rightarrow> ?I w1 i' | Built n \<Rightarrow> ?I w1 (B (Range n))))"
  proof (intro allI impI)
    fix w0 :: "rx world" and i0 :: int
    assume "?I w0 i0"
    then have i0: "i0 = 0" and w0: "w0 = fresh lang_zero \<or> (\<exists>h. w0 = world_zero h)" by simp_all
    from w0 show "Parse_turn toy fuel12 w0 root0 ''ab'' i0 \<noteq> Timeout \<and>
       (\<forall>t w1. Parse_turn toy fuel12 w0 root0 ''ab'' i0 = Ret (t, w1) \<longrightarrow>
          (case t of Break \<Rightarrow> True | Fast i' \<Rightarrow> ?I w1 i' | Built n \<Rightarrow> ?I w1 (B (Range n))))"
    proof
      assume "w0 = fresh lang_zero"
      then show ?thesis unfolding i0 by (auto simp: zero_turn_first zb)
    next
      assume "\<exists>h. w0 = world_zero h"
      then obtain h where "w0 = world_zero h" ..
      then show ?thesis unfolding i0 by (auto simp: zero_turn_next zb)
    qed
  qed
  have start: "?I (fresh lang_zero) 0" by simp
  from Parse_loop_bounded [where dp = toy and fuel = fuel12 and w = "fresh lang_zero"
      and root = root0 and sdata = "''ab''" and rn = rn0 and i = 0 and iter = "nat maxiter"
      and I = ?I, THEN conjunct2, THEN conjunct2, rule_format, OF conjI [OF start closed]]
  have d: "Parse_loop toy fuel12 (fresh lang_zero) root0 ''ab'' rn0 0 (nat maxiter) \<noteq> Timeout" .
  from Parse_loop_bounded [where dp = toy and fuel = fuel12 and w = "fresh lang_numeric"
      and root = root0 and sdata = "[CHR 0xC3, CHR 0xA9, LF, CHR ''4'', CHR ''2'']" and i = 0
      and i' = 3 and ?w1.0 = world_nl, THEN conjunct1, rule_format, OF t]
  have a: "(0 :: int) < 3 \<and> (3 :: int) \<le> int (length [CHR 0xC3, CHR 0xA9, LF, CHR ''4'', CHR ''2''])" .
  from Parse_loop_bounded [where dp = toy and fuel = fuel12 and w = "fresh lang_zero"
      and root = root0 and sdata = "''ab''" and rn = rn0 and i = 0 and iter = "Suc (Suc 0)"
      and rn' = "Node ''source.x'' \<lparr>A = 0, B = 0\<rparr> [znode, znode]" and iter' = 0
      and w' = "world_zero 1", THEN conjunct2, THEN conjunct1, rule_format, OF l]
  have b: "(0 :: nat) \<le> Suc (Suc 0) \<and>
     length (Children (Node ''source.x'' \<lparr>A = 0, B = 0\<rparr> [znode, znode])) + 0
       \<le> length (Children rn0) + Suc (Suc 0)" .
  from t l a b d zb zero_turn_first zero_turn_next show ?thesis by (intro conjI allI) simp_all
qed

section \<open>The lookup table from byte offsets to rune offsets\<close>

lemma of_char_char_of_nat: "(of_char (char_of (x :: int)) :: nat) = nat (x mod 256)"
proof -
  have "(of_char (char_of x) :: nat) = nat (of_char (char_of x) :: int)"
    by (simp only: nat_of_char)
  then show ?thesis by simp
qed

lemma byte_val: "0 \<le> x \<Longrightarrow> x < 256 \<Longrightarrow> (of_char (char_of (x :: int)) :: nat) = nat x"
  by (simp add: of_char_char_of_nat)

lemma encode_rune_not_Nil: "encode_rune r \<noteq> []"
  by (simp add: encode_rune_def)

lemma DecodeWidth_encode_1:
  "0 \<le> r \<Longrightarrow> r < 0x80 \<Longrightarrow> DecodeWidth (encode_rune r @ rest) = 1"
  by (simp add: encode_rune_def DecodeWidth_def byte_val Let_def)

lemma DecodeWidth_bad:
  "r < 0 \<or> r > 0x10FFFF \<or> (0xD800 \<le> r \<and> r \<le> 0xDFFF) \<Longrightarrow> DecodeWidth (encode_rune r @ rest) = 3"
  by (simp add: encode_rune_def DecodeWidth_def cont_byte_def byte_val Let_def)

lemma DecodeWidth_encode_2:
  assumes "0x80 \<le> r" "r < 0x800"
  shows "DecodeWidth (encode_rune r @ rest) = 2"
proof -
  define q where "q = r div 64"
  define m where "m = r mod 64"
  have q: "2 \<le> q" "q \<le> 31" using assms by (auto simp: q_def)
  have m: "0 \<le> m" "m < 64" by (auto simp: m_def)
  have b0: "(of_char (char_of (192 + q)) :: nat) = nat (192 + q)" using q by (simp add: byte_val)
  have b1: "(of_char (char_of (128 + m)) :: nat) = nat (128 + m)" using m by (simp add: byte_val)
  have enc: "encode_rune r = [char_of (192 + q), char_of (128 + m)]"
    using assms by (simp add: encode_rune_def q_def m_def)
  show ?thesis
    unfolding enc using q m
    by (simp add: DecodeWidth_def cont_byte_def Let_def b0 b1) arith
qed


lemma cont_byte_at:
  "k < length s \<Longrightarrow> s ! k = char_of (128 + m) \<Longrightarrow> 0 \<le> m \<Longrightarrow> m < 64 \<Longrightarrow>
   lo \<le> nat (128 + (m :: int)) \<Longrightarrow> nat (128 + m) \<le> hi \<Longrightarrow> cont_byte s k lo hi"
  by (simp add: cont_byte_def byte_val)

lemma DecodeWidth_3:
  assumes "s = char_of (224 + q) # c1 # c2 # rest" "0 \<le> (q :: int)" "q \<le> 15"
    and "cont_byte s 1 (if q = 0 then 0xA0 else 0x80) (if q = 13 then 0x9F else 0xBF)"
    and "cont_byte s 2 0x80 0xBF"
  shows "DecodeWidth s = 3"
proof -
  have b0: "(of_char (hd s) :: nat) = 224 + nat q"
    using assms(1-3) by (simp add: byte_val nat_add_distrib)
  have e0: "224 + nat q = 224 \<longleftrightarrow> q = 0" and ed: "224 + nat q = 237 \<longleftrightarrow> q = 13"
    using assms(2) by auto
  have lt: "224 + nat q < 240" using assms(3) by simp
  show ?thesis
    using assms(2,4,5) lt by (auto simp add: DecodeWidth_def Let_def b0 e0 ed)
qed

lemma DecodeWidth_4:
  assumes "s = char_of (240 + q) # c1 # c2 # c3 # rest" "0 \<le> (q :: int)" "q \<le> 4"
    and "cont_byte s 1 (if q = 0 then 0x90 else 0x80) (if q = 4 then 0x8F else 0xBF)"
    and "cont_byte s 2 0x80 0xBF" and "cont_byte s 3 0x80 0xBF"
  shows "DecodeWidth s = 4"
proof -
  have b0: "(of_char (hd s) :: nat) = 240 + nat q"
    using assms(1-3) by (simp add: byte_val nat_add_distrib)
  have e0: "240 + nat q = 240 \<longleftrightarrow> q = 0" and ed: "240 + nat q = 244 \<longleftrightarrow> q = 4"
    using assms(2) by auto
  have lt: "240 + nat q < 245" using assms(3) by simp
  show ?thesis
    using assms(2,4,5,6) lt by (auto simp add: DecodeWidth_def Let_def b0 e0 ed)
qed

lemma DecodeWidth_encode_3:
  assumes "0x800 \<le> r" "r < 0x10000" "\<not> (0xD800 \<le> r \<and> r \<le> 0xDFFF)"
  shows "DecodeWidth (encode_rune r @ rest) = 3"
proof -
  define q where "q = r div 4096"
  define m1 where "m1 = (r div 64) mod 64"
  define m where "m = r mod 64"
  have q: "0 \<le> q" "q \<le> 15" using assms by (auto simp: q_def)
  have m1: "0 \<le> m1" "m1 < 64" by (auto simp: m1_def)
  have m: "0 \<le> m" "m < 64" by (auto simp: m_def)
  have lo: "32 \<le> m1" if "q = 0"
  proof -
    have "r < 4096" using that assms(1) unfolding q_def by arith
    then have "r div 64 < 64" by arith
    moreover have "32 \<le> r div 64" using assms(1) by arith
    ultimately show ?thesis unfolding m1_def by simp
  qed
  have hi: "m1 < 32" if "q = 13"
  proof -
    have "53248 \<le> r" using that unfolding q_def by arith
    moreover have "r < 55296" using that assms unfolding q_def by arith
    ultimately have a: "832 \<le> r div 64" "r div 64 < 864" by arith+
    then have "(r div 64) div 64 = 13" by arith
    then have "(r div 64) mod 64 = r div 64 - 832"
      using minus_mult_div_eq_mod [of "r div 64" 64] by simp
    with a show ?thesis unfolding m1_def by simp
  qed
  have enc: "encode_rune r @ rest = char_of (224 + q) # char_of (128 + m1) # char_of (128 + m) # rest"
    using assms by (auto simp add: encode_rune_def q_def m1_def m_def)
  have c1: "cont_byte (encode_rune r @ rest) 1 (if q = 0 then 0xA0 else 0x80) (if q = 13 then 0x9F else 0xBF)"
    unfolding enc using m1 lo hi by (intro cont_byte_at [where m = m1]) auto
  have c2: "cont_byte (encode_rune r @ rest) 2 0x80 0xBF"
    unfolding enc using m by (intro cont_byte_at [where m = m]) auto
  show ?thesis
    by (rule DecodeWidth_3 [OF enc q]) (use c1 c2 in simp_all)
qed

lemma DecodeWidth_encode_4:
  assumes "0x10000 \<le> r" "r \<le> 0x10FFFF"
  shows "DecodeWidth (encode_rune r @ rest) = 4"
proof -
  define q where "q = r div 262144"
  define m2 where "m2 = (r div 4096) mod 64"
  define m1 where "m1 = (r div 64) mod 64"
  define m where "m = r mod 64"
  have q: "0 \<le> q" "q \<le> 4" using assms by (auto simp: q_def)
  have m2: "0 \<le> m2" "m2 < 64" by (auto simp: m2_def)
  have m1: "0 \<le> m1" "m1 < 64" by (auto simp: m1_def)
  have m: "0 \<le> m" "m < 64" by (auto simp: m_def)
  have lo: "16 \<le> m2" if "q = 0"
  proof -
    have "r < 262144" using that assms(1) unfolding q_def by arith
    then have "r div 4096 < 64" by arith
    moreover have "16 \<le> r div 4096" using assms(1) by arith
    ultimately show ?thesis unfolding m2_def by simp
  qed
  have hi: "m2 < 16" if "q = 4"
  proof -
    have "1048576 \<le> r" using that unfolding q_def by arith
    then have a: "256 \<le> r div 4096" "r div 4096 < 272" using assms(2) by arith+
    then have "(r div 4096) div 64 = 4" by arith
    then have "(r div 4096) mod 64 = r div 4096 - 256"
      using minus_mult_div_eq_mod [of "r div 4096" 64] by simp
    with a show ?thesis unfolding m2_def by simp
  qed
  have enc: "encode_rune r @ rest
      = char_of (240 + q) # char_of (128 + m2) # char_of (128 + m1) # char_of (128 + m) # rest"
    using assms by (simp add: encode_rune_def q_def m2_def m1_def m_def)
  have c1: "cont_byte (encode_rune r @ rest) 1 (if q = 0 then 0x90 else 0x80) (if q = 4 then 0x8F else 0xBF)"
    unfolding enc using m2 lo hi by (intro cont_byte_at [where m = m2]) auto
  have c2: "cont_byte (encode_rune r @ rest) 2 0x80 0xBF"
    unfolding enc using m1 by (intro cont_byte_at [where m = m1]) auto
  have c3: "cont_byte (encode_rune r @ rest) 3 0x80 0xBF"
    unfolding enc using m by (intro cont_byte_at [where m = m]) auto
  show ?thesis
    by (rule DecodeWidth_4 [OF enc q]) (use c1 c2 c3 in simp_all)
qed

lemma DecodeWidth_encode: "DecodeWidth (encode_rune r @ rest) = length (encode_rune r)"
proof -
  consider "r < 0 \<or> r > 0x10FFFF \<or> (0xD800 \<le> r \<and> r \<le> 0xDFFF)"
    | "0 \<le> r" "r < 0x80" | "0x80 \<le> r" "r < 0x800"
    | "0x800 \<le> r" "r < 0x10000" "\<not> (0xD800 \<le> r \<and> r \<le> 0xDFFF)"
    | "0x10000 \<le> r" "r \<le> 0x10FFFF"
    by linarith
  then show ?thesis
  proof cases
    case 1
    then have "length (encode_rune r) = 3" unfolding encode_rune_def by simp
    with DecodeWidth_bad [OF 1] show ?thesis by (simp only:)
  next
    case 2
    then have "length (encode_rune r) = 1" unfolding encode_rune_def by simp
    with DecodeWidth_encode_1 [OF 2] show ?thesis by (simp only:)
  next
    case 3
    then have "length (encode_rune r) = 2" unfolding encode_rune_def by simp
    with DecodeWidth_encode_2 [OF 3] show ?thesis by (simp only:)
  next
    case 4
    then have "length (encode_rune r) = 3" unfolding encode_rune_def by auto
    with DecodeWidth_encode_3 [OF 4] show ?thesis by (simp only:)
  next
    case 5
    then have "length (encode_rune r) = 4" unfolding encode_rune_def by simp
    with DecodeWidth_encode_4 [OF 5] show ?thesis by (simp only:)
  qed
qed

lemma to_string_Cons: "to_string (r # rs) = encode_rune r @ to_string rs"
  by (simp add: to_string_def)

lemma byte_offset_0: "byte_offset data 0 = 0"
  by (simp add: byte_offset_def to_string_def)

lemma byte_offset_Suc_Cons:
  "byte_offset (r # rs) (Suc k) = length (encode_rune r) + byte_offset rs k"
  by (simp add: byte_offset_def to_string_Cons)

lemma byte_offset_length: "byte_offset data (length data) = length (to_string data)"
  by (simp add: byte_offset_def)

lemma byte_offset_less:
  "j < k \<Longrightarrow> k \<le> length data \<Longrightarrow> byte_offset data j < byte_offset data k"
proof (induction data arbitrary: j k)
  case Nil
  then show ?case by simp
next
  case (Cons r rs)
  from Cons.prems obtain k' where k: "k = Suc k'" by (cases k) auto
  have pos: "0 < length (encode_rune r)" using encode_rune_not_Nil [of r] by simp
  show ?case
  proof (cases j)
    case 0
    then show ?thesis using pos by (simp add: k byte_offset_0 byte_offset_Suc_Cons)
  next
    case (Suc j')
    with Cons.prems k Cons.IH [of j' k'] show ?thesis
      by (simp add: byte_offset_Suc_Cons)
  qed
qed

lemma range_offsets_to_string:
  "range_offsets (to_string rs) off = map (\<lambda>k. off + byte_offset rs k) [0..<length rs]"
proof (induction rs arbitrary: off)
  case Nil
  show ?case by (simp add: to_string_def range_offsets.simps)
next
  case (Cons r rs)
  have ne: "to_string (r # rs) \<noteq> []"
    using encode_rune_not_Nil [of r] by (simp add: to_string_Cons)
  have w: "DecodeWidth (to_string (r # rs)) = length (encode_rune r)"
    by (simp add: to_string_Cons DecodeWidth_encode)
  have "range_offsets (to_string (r # rs)) off
          = off # range_offsets (to_string rs) (off + length (encode_rune r))"
    by (subst range_offsets.simps) (simp add: ne w, simp add: to_string_Cons)
  also have "\<dots> = off # map (\<lambda>k. off + length (encode_rune r) + byte_offset rs k) [0..<length rs]"
    by (simp add: Cons.IH)
  also have "\<dots> = map (\<lambda>k. off + byte_offset (r # rs) k) [0..<length (r # rs)]"
    by (simp add: upt_conv_Cons map_Suc_upt [symmetric] byte_offset_0 byte_offset_Suc_Cons
        del: upt_Suc)
  finally show ?case .
qed

lemma length_fill_lut: "length (fill_lut lut offs j) = length lut"
  by (induction lut offs j rule: fill_lut.induct) simp_all

lemma fill_lut_other: "x \<notin> set offs \<Longrightarrow> fill_lut lut offs j ! x = lut ! x"
  by (induction lut offs j rule: fill_lut.induct) auto

lemma fill_lut_nth:
  "distinct offs \<Longrightarrow> k < length offs \<Longrightarrow> offs ! k < length lut \<Longrightarrow>
     fill_lut lut offs j ! (offs ! k) = j + int k"
proof (induction lut offs j arbitrary: k rule: fill_lut.induct)
  case (1 lut j)
  then show ?case by simp
next
  case (2 lut i "is" j)
  show ?case
  proof (cases k)
    case 0
    with "2.prems" show ?thesis by (simp add: fill_lut_other)
  next
    case (Suc k')
    with "2.prems" "2.IH" [of k'] show ?thesis by simp
  qed
qed

lemma patch_rewrite:
  "patch lut n = (if in_table lut n then Ret (rewrite lut n) else Panic)"
  "patch_children lut ns = (if \<forall>c \<in> set ns. in_table lut c then Ret (map (rewrite lut) ns) else Panic)"
  by (induction lut n and lut ns rule: patch_patch_children.induct)
     (auto simp: idx_def)

lemma build_lut_table:
  assumes "k \<le> length data"
  shows "length (build_lut data) = length (to_string data) + 1"
    and "build_lut data ! byte_offset data k = int k"
proof -
  let ?s = "to_string data"
  let ?offs = "map (byte_offset data) [0..<length data]"
  let ?f = "fill_lut (replicate (length ?s + 1) 0) ?offs 0"
  have offs: "range_offsets ?s 0 = ?offs"
    by (simp add: range_offsets_to_string)
  show len: "length (build_lut data) = length ?s + 1"
    by (simp add: build_lut_def length_fill_lut)
  have inj: "inj_on (byte_offset data) {0..<length data}"
    by (rule inj_onI) (metis atLeastLessThan_iff byte_offset_less less_imp_le_nat linorder_neqE_nat nat_neq_iff)
  have dist: "distinct ?offs" using inj by (simp add: distinct_map)
  show "build_lut data ! byte_offset data k = int k"
  proof (cases "k = length data")
    case True
    then show ?thesis
      by (simp add: build_lut_def byte_offset_length length_fill_lut)
  next
    case False
    with assms have k: "k < length data" by simp
    have lt: "byte_offset data k < length ?s"
      using byte_offset_less [OF k, of data] by (simp add: byte_offset_length)
    have "?f ! (?offs ! k) = 0 + int k"
      using k lt by (intro fill_lut_nth [OF dist]) simp_all
    with k lt show ?thesis by (simp add: build_lut_def offs)
  qed
qed

section \<open>Two passes on one instance, and the rewrite of the ranges\<close>

lemma to_string_eq_Nil: "to_string data = [] \<longleftrightarrow> data = []"
  using encode_rune_not_Nil by (cases data) (auto simp: to_string_def)

lemma UpdateRange_leaf: "UpdateRange (Node nm r []) = Node nm r []"
  by simp

lemma second_pass_null:
  assumes l: "l < length (langs w1)"
    and nr: "null_recorded w1 (PAddr l None []) (to_string data)"
  shows "Parse_body dp (Suc n) w1 l data
           = Ret (Node (ScopeName (langs w1 ! l)) \<lparr>A = 0, B = 0\<rparr> [], w1)"
proof -
  let ?rn = "Node (ScopeName (langs w1 ! l)) \<lparr>A = 0, B = 0\<rparr> []"
  have k: "0 < nat maxiter" by (simp add: maxiter_def)
  have loop: "Parse_loop dp (Suc n) w1 (PAddr l None []) (to_string data) ?rn 0 (nat maxiter)
                = Ret (?rn, nat maxiter, w1)"
    by (simp add: Parse_loop_pos [OF k] Parse_turn_def Cache_null_recorded [OF nr])
  have tab: "0 < length (build_lut data)" "build_lut data ! 0 = 0"
    using build_lut_table [of 0 data] by (simp_all add: byte_offset_0)
  have "patch (build_lut data) ?rn = Ret ?rn"
    using tab by (simp add: patch_rewrite)
  then show ?thesis
    using l k by (simp add: Parse_body_def loop)
qed

text \<open>
  C8, amended. A second pass over the same input on the same instance starts
  from the caches the first pass left. When the first pass left a null match
  recorded in the root pattern for this input, the second pass builds no node:
  it returns the bare root, whatever tree the first pass returned.
\<close>

theorem second_pass_after_null:
  "Parse_body dp (Suc n) w l data = Ret (t1, w1) \<Longrightarrow> l < length (langs w1) \<Longrightarrow>
   null_recorded w1 (PAddr l None []) (to_string data) \<Longrightarrow>
     Parse_twice dp (Suc n) w l data
       = Ret (t1, Node (ScopeName (langs w1 ! l)) \<lparr>A = 0, B = 0\<rparr> [])"
  by (simp add: Parse_twice_def second_pass_null)

text \<open>
  C8, as the claim states it, fails: over \<open>a 42 x\<close> the first pass returns the
  root with the node for \<open>42\<close>, the second pass on the same instance the bare
  root.
\<close>

theorem two_passes_differ:
  "Parse_twice toy fuel12 (fresh lang_numeric) 0 [0x61, 0x20, 0x34, 0x32, 0x20, 0x78]
     = Ret (Node ''source.x'' \<lparr>A = 0, B = 4\<rparr> [Node ''constant.numeric'' \<lparr>A = 2, B = 4\<rparr> []],
            Node ''source.x'' \<lparr>A = 0, B = 0\<rparr> []) \<and>
   Node ''source.x'' \<lparr>A = 0, B = 4\<rparr> [Node ''constant.numeric'' \<lparr>A = 2, B = 4\<rparr> []]
     \<noteq> Node ''source.x'' \<lparr>A = 0, B = 0\<rparr> []"
  by (simp add: Parse_twice_def run_defs lang_numeric_def)

text \<open>The two passes over \<open>a 42 x\<close>, through the theorem.\<close>

theorem second_pass_after_null_witness:
  "Parse_body toy (Suc 11) (fresh lang_numeric) 0 [0x61, 0x20, 0x34, 0x32, 0x20, 0x78]
     = Ret (Node ''source.x'' \<lparr>A = 0, B = 4\<rparr> [Node ''constant.numeric'' \<lparr>A = 2, B = 4\<rparr> []],
            world_numeric_done) \<and>
   0 < length (langs world_numeric_done) \<and>
   null_recorded world_numeric_done (PAddr 0 None []) (to_string [0x61, 0x20, 0x34, 0x32, 0x20, 0x78]) \<and>
   Parse_twice toy (Suc 11) (fresh lang_numeric) 0 [0x61, 0x20, 0x34, 0x32, 0x20, 0x78]
     = Ret (Node ''source.x'' \<lparr>A = 0, B = 4\<rparr> [Node ''constant.numeric'' \<lparr>A = 2, B = 4\<rparr> []],
            Node (ScopeName (langs world_numeric_done ! 0)) \<lparr>A = 0, B = 0\<rparr> [])"
proof -
  have f: "Suc 11 = fuel12" by (simp add: fuel12_def)
  have p: "Parse_body toy (Suc 11) (fresh lang_numeric) 0 [0x61, 0x20, 0x34, 0x32, 0x20, 0x78]
     = Ret (Node ''source.x'' \<lparr>A = 0, B = 4\<rparr> [Node ''constant.numeric'' \<lparr>A = 2, B = 4\<rparr> []],
            world_numeric_done)"
    unfolding f by (simp add: run_defs lang_numeric_def world_numeric_done_def)
  have l: "0 < length (langs world_numeric_done)"
    by (simp add: world_numeric_done_def)
  have n: "null_recorded world_numeric_done (PAddr 0 None [])
             (to_string [0x61, 0x20, 0x34, 0x32, 0x20, 0x78])"
    by (simp add: null_recorded_def world_numeric_done_def to_string_def encode_rune_def char_of_def)
  from second_pass_after_null [OF p l n] p l n show ?thesis by blast
qed

text \<open>
  C9. For a non-empty input the table has one entry per byte offset and a
  terminal one; the terminal entry maps the byte length to the rune length;
  the entry at the byte offset where rune \<open>k\<close> starts is \<open>k\<close>; and the tree that
  \<^verbatim>\<open>Parse\<close> returns is the tree of the loop, after \<^verbatim>\<open>UpdateRange\<close>, with the begin
  and end of the range of the root and of every descendant looked up in the
  table (a panic if an offset lies outside the table).
\<close>

theorem lut_rewrite:
  "data \<noteq> [] \<Longrightarrow> k \<le> length data \<Longrightarrow> l < length (langs w) \<Longrightarrow>
   Parse_loop dp fuel w (PAddr l None []) (to_string data)
     (Node (ScopeName (langs w ! l)) \<lparr>A = 0, B = 0\<rparr> []) 0 (nat maxiter) = Ret (rn, Suc it, w') \<Longrightarrow>
     length (build_lut data) = length (to_string data) + 1 \<and>
     build_lut data ! length (to_string data) = int (length data) \<and>
     build_lut data ! byte_offset data k = int k \<and>
     Parse_body dp fuel w l data =
       (if in_table (build_lut data) (UpdateRange rn)
        then Ret (rewrite (build_lut data) (UpdateRange rn), w') else Panic)"
  using build_lut_table [of k data] build_lut_table (2) [of "length data" data]
  by (simp add: Parse_body_def patch_rewrite to_string_eq_Nil byte_offset_length)

text \<open>The text of U+00E9 and \<open>42\<close>: the match at bytes 2 to 4 is reported as runes
  1 to 3.\<close>

theorem lut_rewrite_witness:
  "[0xE9, 0x34, 0x32] \<noteq> ([] :: int list) \<and> (1 :: nat) \<le> length [0xE9, 0x34, 0x32 :: int] \<and>
   0 < length (langs (fresh lang_numeric)) \<and>
   to_string [0xE9, 0x34, 0x32] = [CHR 0xC3, CHR 0xA9, CHR ''4'', CHR ''2''] \<and>
   Parse_loop toy fuel12 (fresh lang_numeric) (PAddr 0 None []) (to_string [0xE9, 0x34, 0x32])
     (Node (ScopeName (langs (fresh lang_numeric) ! 0)) \<lparr>A = 0, B = 0\<rparr> []) 0 (nat maxiter)
     = Ret (Node ''source.x'' \<lparr>A = 0, B = 0\<rparr> [Node ''constant.numeric'' \<lparr>A = 2, B = 4\<rparr> []],
            Suc 9998, world_e42) \<and>
   length (build_lut [0xE9, 0x34, 0x32]) = 5 \<and>
   build_lut [0xE9, 0x34, 0x32] ! 4 = 3 \<and>
   byte_offset [0xE9, 0x34, 0x32] 1 = 2 \<and>
   build_lut [0xE9, 0x34, 0x32] ! 2 = 1 \<and>
   Parse_body toy fuel12 (fresh lang_numeric) 0 [0xE9, 0x34, 0x32]
     = Ret (Node ''source.x'' \<lparr>A = 0, B = 3\<rparr> [Node ''constant.numeric'' \<lparr>A = 1, B = 3\<rparr> []],
            world_e42)"
proof -
  have ts: "to_string [0xE9, 0x34, 0x32] = [CHR 0xC3, CHR 0xA9, CHR ''4'', CHR ''2'']"
    by (simp add: to_string_def encode_rune_def char_of_def)
  have bo: "byte_offset [0xE9, 0x34, 0x32] 1 = 2"
    by (simp add: byte_offset_def to_string_def encode_rune_def)
  have l: "0 < length (langs (fresh lang_numeric))" by (simp add: fresh_def)
  have run: "Parse_loop toy fuel12 (fresh lang_numeric) (PAddr 0 None []) (to_string [0xE9, 0x34, 0x32])
     (Node (ScopeName (langs (fresh lang_numeric) ! 0)) \<lparr>A = 0, B = 0\<rparr> []) 0 (nat maxiter)
     = Ret (Node ''source.x'' \<lparr>A = 0, B = 0\<rparr> [Node ''constant.numeric'' \<lparr>A = 2, B = 4\<rparr> []],
            Suc 9998, world_e42)"
    by (simp add: run_defs lang_numeric_def world_e42_def)
  have ur: "UpdateRange (Node ''source.x'' \<lparr>A = 0, B = 0\<rparr> [Node ''constant.numeric'' \<lparr>A = 2, B = 4\<rparr> []])
      = Node ''source.x'' \<lparr>A = 0, B = 4\<rparr> [Node ''constant.numeric'' \<lparr>A = 2, B = 4\<rparr> []]"
    by (simp add: model_defs)
  have bl: "build_lut [0xE9, 0x34, 0x32] = [0, 0, 1, 2, 3]"
    by (simp add: run_defs)
  from lut_rewrite [of "[0xE9, 0x34, 0x32]" 1, OF _ _ l run]
  have "Parse_body toy fuel12 (fresh lang_numeric) 0 [0xE9, 0x34, 0x32] =
       (if in_table (build_lut [0xE9, 0x34, 0x32])
             (UpdateRange (Node ''source.x'' \<lparr>A = 0, B = 0\<rparr>
                [Node ''constant.numeric'' \<lparr>A = 2, B = 4\<rparr> []]))
        then Ret (rewrite (build_lut [0xE9, 0x34, 0x32])
             (UpdateRange (Node ''source.x'' \<lparr>A = 0, B = 0\<rparr>
                [Node ''constant.numeric'' \<lparr>A = 2, B = 4\<rparr> []])), world_e42) else Panic)"
    by simp
  then have pb: "Parse_body toy fuel12 (fresh lang_numeric) 0 [0xE9, 0x34, 0x32]
     = Ret (Node ''source.x'' \<lparr>A = 0, B = 3\<rparr> [Node ''constant.numeric'' \<lparr>A = 1, B = 3\<rparr> []],
            world_e42)"
    by (simp only: ur bl) simp
  show ?thesis using ts bo l run pb by (simp add: bl)
qed

section \<open>Capture nodes and their parents\<close>

lemma scan_cover_spec:
  "(scan_cover rs r k < k \<and> Covers (rs ! scan_cover rs r k) r \<and>
      (\<forall>j'. scan_cover rs r k < j' \<and> j' < k \<longrightarrow> \<not> Covers (rs ! j') r))
   \<or> (scan_cover rs r k = 0 \<and> (\<forall>j' < k. \<not> Covers (rs ! j') r))"
proof (induction k)
  case 0
  show ?case by simp
next
  case (Suc k)
  show ?case
  proof (cases "Covers (rs ! k) r")
    case True
    then show ?thesis by auto
  next
    case False
    with Suc show ?thesis
      by (auto simp: less_Suc_eq)
  qed
qed

lemma length_parentIndex_of [simp]: "length (parentIndex_of rs) = length rs"
  by (simp add: parentIndex_of_def)

lemma length_ranges_of [simp]: "length (ranges_of mo) = length mo div 2"
  by (simp add: ranges_of_def)

lemma parentIndex_nearest:
  "2 \<le> i \<Longrightarrow> i < length rs \<Longrightarrow> nearest_cover rs i (parentIndex_of rs ! i)"
  using scan_cover_spec [of rs "rs ! i" i]
  by (simp add: parentIndex_of_def nearest_cover_def)

lemma parentIndex_low:
  "i < length rs \<Longrightarrow> i < 2 \<Longrightarrow> parentIndex_of rs ! i = 0"
  by (simp add: parentIndex_of_def)

lemma parentIndex_less:
  "1 \<le> i \<Longrightarrow> i < length rs \<Longrightarrow> parentIndex_of rs ! i < i"
  using scan_cover_spec [of rs "rs ! i" i]
  by (auto simp: parentIndex_of_def)

lemma chain_shift: "chain pidx (pidx ! i) m = chain pidx i (Suc m)"
  by (induction m) simp_all

lemma walk_chain:
  "walk f pidx parents i = Ret pth \<Longrightarrow>
     \<exists>k. 1 \<le> k \<and> parents ! (chain pidx i k) = Some pth \<and>
         (\<forall>k'. 1 \<le> k' \<and> k' < k \<longrightarrow> parents ! (chain pidx i k') = None)"
proof (induction f arbitrary: i)
  case 0
  then show ?case by simp
next
  case (Suc f)
  show ?case
  proof (cases "parents ! (pidx ! i)")
    case (Some p)
    with Suc.prems have "p = pth" by (auto split: if_splits)
    with Some show ?thesis by (intro exI [of _ 1]) simp
  next
    case None
    with Suc.prems have "walk f pidx parents (pidx ! i) = Ret pth"
      by (auto split: if_splits)
    from Suc.IH [OF this] obtain k where k: "1 \<le> k"
      "parents ! (chain pidx (pidx ! i) k) = Some pth"
      "\<forall>k'. 1 \<le> k' \<and> k' < k \<longrightarrow> parents ! (chain pidx (pidx ! i) k') = None"
      by blast
    show ?thesis
    proof (intro exI [of _ "Suc k"] conjI allI impI)
      show "1 \<le> Suc k" by simp
      show "parents ! chain pidx i (Suc k) = Some pth" using k(2) chain_shift [of pidx i k] by simp
      fix k' assume a: "1 \<le> k' \<and> k' < Suc k"
      show "parents ! chain pidx i k' = None"
      proof (cases "k' = 1")
        case True
        then show ?thesis using None by simp
      next
        case False
        with a obtain m where m: "k' = Suc m" "1 \<le> m" "m < k" by (cases k') auto
        from k(3) m have "parents ! chain pidx (pidx ! i) m = None" by simp
        then show ?thesis using m(1) by (simp add: chain_shift)
      qed
    qed
  qed
qed

lemma walk_returns:
  assumes len: "length parents = length rs"
    and p0: "parents ! 0 \<noteq> None"
  shows "1 \<le> i \<Longrightarrow> i < length rs \<Longrightarrow> i \<le> f \<Longrightarrow>
           \<exists>pth j. walk f (parentIndex_of rs) parents i = Ret pth \<and> j < i \<and> parents ! j = Some pth"
proof (induction f arbitrary: i)
  case 0
  then show ?case by simp
next
  case (Suc f)
  let ?j = "parentIndex_of rs ! i"
  have jl: "?j < i" using parentIndex_less Suc.prems by simp
  show ?case
  proof (cases "parents ! ?j")
    case (Some p)
    then show ?thesis using Suc.prems jl len by auto
  next
    case None
    have j1: "1 \<le> ?j" using None p0 by (cases "?j = 0") auto
    have jf: "?j \<le> f" using jl Suc.prems by simp
    have jn: "?j < length rs" using jl Suc.prems by simp
    from Suc.IH [OF j1 jn jf] obtain pth j where
      "walk f (parentIndex_of rs) parents ?j = Ret pth" "j < ?j" "parents ! j = Some pth"
      by blast
    then show ?thesis using None Suc.prems jl len
      by (intro exI [of _ pth] exI [of _ j]) auto
  qed
qed

lemma num_nodes_append_at:
  "node_at n pth = Some m \<Longrightarrow> num_nodes (append_at n pth c) = num_nodes n + num_nodes c"
proof (induction pth arbitrary: n)
  case Nil
  show ?case by (cases n) (simp add: Append_def)
next
  case (Cons k ks)
  obtain nm r cs where n: "n = Node nm r cs" by (cases n)
  from Cons.prems n have k: "k < length cs" and sub: "node_at (cs ! k) ks = Some m"
    by (auto split: if_splits)
  have "sum_list ((map num_nodes cs)[k := num_nodes (append_at (cs ! k) ks c)])
          = sum_list (map num_nodes cs) + num_nodes (append_at (cs ! k) ks c) - map num_nodes cs ! k"
    using k by (intro sum_list_update) simp
  moreover have "num_nodes (cs ! k) \<le> sum_list (map num_nodes cs)"
    using k by (intro member_le_sum_list) auto
  ultimately show ?case
    using k Cons.IH [OF sub] by (simp add: n map_update)
qed

lemma node_at_append_at_old:
  "node_at n q = Some m \<Longrightarrow> node_at (append_at n pth c) q \<noteq> None"
proof (induction q arbitrary: n pth m)
  case Nil
  show ?case by simp
next
  case (Cons k ks)
  obtain nm r cs where n: "n = Node nm r cs" by (cases n)
  from Cons.prems n have k: "k < length cs" and sub: "node_at (cs ! k) ks = Some m"
    by (auto split: if_splits)
  show ?case
  proof (cases pth)
    case Nil
    with k sub show ?thesis by (simp add: n Append_def nth_append)
  next
    case (Cons j js)
    show ?thesis
    proof (cases "j < length cs")
      case False
      with Cons k sub show ?thesis by (simp add: n)
    next
      case True
      show ?thesis
      proof (cases "k = j")
        case True
        with Cons k sub Cons.IH [OF sub, of js] show ?thesis by (simp add: n)
      next
        case False
        with Cons k sub \<open>j < length cs\<close> show ?thesis by (simp add: n)
      qed
    qed
  qed
qed

lemma node_at_append_at_new:
  "node_at n pth = Some pn \<Longrightarrow>
     node_at (append_at n pth c) (pth @ [length (Children pn)]) = Some c"
proof (induction pth arbitrary: n)
  case Nil
  then show ?case by (cases n) (simp add: Append_def)
next
  case (Cons k ks)
  obtain nm r cs where n: "n = Node nm r cs" by (cases n)
  from Cons.prems n have k: "k < length cs" and sub: "node_at (cs ! k) ks = Some pn"
    by (auto split: if_splits)
  from Cons.IH [OF sub] k show ?case by (simp add: n)
qed


lemma paths_ok_init: "paths_ok rs parent (parents_init (length rs))"
  by (auto simp: paths_ok_def parents_init_def split: if_splits)

lemma paths_ok_update:
  assumes ok: "paths_ok rs parent parents" and i: "i < length rs"
    and at: "node_at parent pth = Some pn"
  shows "paths_ok rs (append_at parent pth c) (parents[i := Some (pth @ [length (Children pn)])])"
  unfolding paths_ok_def
proof (intro conjI allI impI)
  show "length (parents[i := Some (pth @ [length (Children pn)])]) = length rs"
    using ok by (simp add: paths_ok_def)
  show "parents[i := Some (pth @ [length (Children pn)])] ! 0 \<noteq> None"
    using ok i by (cases "i = 0") (auto simp: paths_ok_def)
  fix j q
  assume a: "j < length (parents[i := Some (pth @ [length (Children pn)])]) \<and>
             parents[i := Some (pth @ [length (Children pn)])] ! j = Some q"
  show "node_at (append_at parent pth c) q \<noteq> None"
  proof (cases "j = i")
    case True
    from ok i have "i < length parents" by (simp add: paths_ok_def)
    with a True have "q = pth @ [length (Children pn)]" by simp
    then show ?thesis using node_at_append_at_new [OF at, of c] by simp
  next
    case False
    with a ok have "node_at parent q \<noteq> None" by (auto simp: paths_ok_def)
    then obtain m where "node_at parent q = Some m" by auto
    then show ?thesis by (rule node_at_append_at_old)
  qed
qed

lemma capture_loop_returns:
  assumes keys: "\<forall>v \<in> set capt. 0 \<le> Key v" and fuel: "length rs \<le> f"
  shows "paths_ok rs parent parents \<Longrightarrow>
     \<exists>parent'. capture_loop f rs (parentIndex_of rs) capt parent parents = Ret parent' \<and>
       num_nodes parent' = num_nodes parent +
         length (filter (\<lambda>v. Key v < int (length rs) \<and> A (rs ! nat (Key v)) \<noteq> - 1) capt)"
  using keys
proof (induction capt arbitrary: parent parents)
  case Nil
  show ?case by simp
next
  case (Cons v vs)
  from Cons.prems have ok: "paths_ok rs parent parents" and k0: "0 \<le> Key v"
    and rest: "\<forall>v \<in> set vs. 0 \<le> Key v" by simp_all
  have len: "length parents = length rs" using ok by (simp add: paths_ok_def)
  show ?case
  proof (cases "Key v < int (length rs) \<and> A (rs ! nat (Key v)) \<noteq> - 1")
    case False
    with Cons.IH [OF ok rest] k0 len show ?thesis by auto
  next
    case True
    then have kl: "nat (Key v) < length rs" using k0 by (simp add: nat_less_iff)
    let ?child = "Node (capName v) (rs ! nat (Key v)) []"
    show ?thesis
    proof (cases "Key v = 0")
      case True
      have at: "node_at parent [] = Some parent" by simp
      from paths_ok_update [OF ok _ at, of 0 ?child] kl True
      have ok': "paths_ok rs (append_at parent [] ?child) (parents[0 := Some [length (Children parent)]])"
        by simp
      from Cons.IH [OF ok' rest] obtain parent' where
        "capture_loop f rs (parentIndex_of rs) vs (append_at parent [] ?child)
            (parents[0 := Some [length (Children parent)]]) = Ret parent'"
        "num_nodes parent' = num_nodes (append_at parent [] ?child) +
           length (filter (\<lambda>v. Key v < int (length rs) \<and> A (rs ! nat (Key v)) \<noteq> - 1) vs)"
        by blast
      moreover have "num_nodes (append_at parent [] ?child) = num_nodes parent + 1"
        using num_nodes_append_at [OF at, of ?child] by simp
      ultimately show ?thesis using True \<open>Key v < int (length rs) \<and> A (rs ! nat (Key v)) \<noteq> - 1\<close> len
        by simp
    next
      case False
      then have i1: "1 \<le> nat (Key v)" using k0 by simp
      have p0: "parents ! 0 \<noteq> None" using ok kl by (auto simp: paths_ok_def)
      have fi: "nat (Key v) \<le> f" using kl fuel by simp
      from walk_returns [OF len p0 i1 kl fi] obtain pth j where
        w: "walk f (parentIndex_of rs) parents (nat (Key v)) = Ret pth"
        and j: "j < nat (Key v)" "parents ! j = Some pth" by blast
      have "j < length parents" using j(1) kl len by simp
      with ok j(2) have "node_at parent pth \<noteq> None" unfolding paths_ok_def by blast
      then obtain pn where at: "node_at parent pth = Some pn" by auto
      from paths_ok_update [OF ok kl at, of ?child]
      have ok': "paths_ok rs (append_at parent pth ?child)
                   (parents[nat (Key v) := Some (pth @ [length (Children pn)])])" .
      from Cons.IH [OF ok' rest] obtain parent' where
        "capture_loop f rs (parentIndex_of rs) vs (append_at parent pth ?child)
            (parents[nat (Key v) := Some (pth @ [length (Children pn)])]) = Ret parent'"
        "num_nodes parent' = num_nodes (append_at parent pth ?child) +
           length (filter (\<lambda>v. Key v < int (length rs) \<and> A (rs ! nat (Key v)) \<noteq> - 1) vs)"
        by blast
      moreover have "num_nodes (append_at parent pth ?child) = num_nodes parent + 1"
        using num_nodes_append_at [OF at, of ?child] by simp
      ultimately show ?thesis
        using False \<open>Key v < int (length rs) \<and> A (rs ! nat (Key v)) \<noteq> - 1\<close> len k0 w at
        by simp
    qed
  qed
qed

lemma A_ranges_of: "i < length mo div 2 \<Longrightarrow> A (ranges_of mo ! i) = mo ! (i * 2)"
  by (simp add: ranges_of_def)

lemma CreateCaptureNodes_returns:
  assumes "\<forall>v \<in> set capt. 0 \<le> Key v" and "length mo div 2 \<le> f"
  shows "\<exists>parent'. CreateCaptureNodes f data pos mo parent capt = Ret parent' \<and>
           num_nodes parent' = num_nodes parent + length (filter (present mo) capt)"
proof -
  have eq: "filter (\<lambda>v. Key v < int (length mo div 2) \<and> A (ranges_of mo ! nat (Key v)) \<noteq> - 1) capt
              = filter (present mo) capt"
  proof (rule filter_cong [OF refl])
    fix v assume "v \<in> set capt"
    with assms(1) have "0 \<le> Key v" by simp
    then show "(Key v < int (length mo div 2) \<and> A (ranges_of mo ! nat (Key v)) \<noteq> - 1)
                 = present mo v"
      by (auto simp: present_def A_ranges_of nat_less_iff)
  qed
  from capture_loop_returns [of capt "ranges_of mo" f parent "parents_init (length (ranges_of mo))",
      OF assms(1) _ paths_ok_init] assms(2)
  show ?thesis by (simp add: CreateCaptureNodes_def eq)
qed


declare climb.simps [simp del]

lemma stands_for_None: "stands_for made j = None \<Longrightarrow> 2 \<le> j"
  by (auto simp: stands_for_def split: option.splits if_splits)

lemma scan_cover_filter:
  "scan_cover rs r k =
     (case filter (\<lambda>j. Covers (rs ! j) r) (rev [0..<k]) of [] \<Rightarrow> 0 | j # js \<Rightarrow> j)"
  by (induction k) simp_all

lemma parentIndex_enclosing: "i < length rs \<Longrightarrow> parentIndex_of rs ! i = enclosing rs i"
  by (simp add: parentIndex_of_def enclosing_def scan_cover_filter)

lemma enclosing_nearest: "2 \<le> i \<Longrightarrow> i < length rs \<Longrightarrow> nearest_cover rs i (enclosing rs i)"
  using parentIndex_nearest [of i rs] by (simp add: parentIndex_enclosing)

lemma walk_climb:
  assumes len: "length parents = length rs"
    and rel: "\<forall>j < length rs. parents ! j = stands_for made j"
  shows "1 \<le> i \<Longrightarrow> i < length rs \<Longrightarrow> i \<le> f \<Longrightarrow>
           walk f (parentIndex_of rs) parents i = Ret (climb rs made i)"
proof (induction f arbitrary: i)
  case 0
  then show ?case by simp
next
  case (Suc f)
  let ?j = "enclosing rs i"
  have pj: "parentIndex_of rs ! i = ?j" using Suc.prems by (simp add: parentIndex_enclosing)
  have jl: "?j < i" using parentIndex_less [of i rs] Suc.prems pj by simp
  then have jn: "?j < length rs" using Suc.prems by simp
  with rel have pr: "parents ! ?j = stands_for made ?j" by simp
  show ?case
  proof (cases "stands_for made ?j")
    case (Some pth)
    then have "climb rs made i = pth" by (subst climb.simps) simp
    with Some pr pj jn len Suc.prems show ?thesis by simp
  next
    case None
    then have j2: "2 \<le> ?j" by (rule stands_for_None)
    then have j1: "1 \<le> ?j" by simp
    have jf: "?j \<le> f" using jl Suc.prems by simp
    from None have "climb rs made i = climb rs made ?j" by (subst climb.simps) simp
    with Suc.IH [OF j1 jn jf] None pr pj jn len Suc.prems show ?thesis by simp
  qed
qed

lemma stands_for_init:
  "j < n \<Longrightarrow> parents_init n ! j = stands_for [] j"
  by (simp add: parents_init_def stands_for_def)

lemma stands_for_update:
  assumes "length parents = length rs" "\<forall>j < length rs. parents ! j = stands_for made j"
    "i < length rs"
  shows "\<forall>j < length rs. parents[i := Some q] ! j = stands_for ((i, q) # made) j"
  using assms by (auto simp: stands_for_def nth_list_update)

lemma capture_loop_spec:
  assumes keys: "\<forall>v \<in> set capt. 0 \<le> Key v" and fuel: "length rs \<le> f"
  shows "paths_ok rs parent parents \<Longrightarrow> \<forall>j < length rs. parents ! j = stands_for made j \<Longrightarrow>
     capture_loop f rs (parentIndex_of rs) capt parent parents
       = Ret (spec_capture_loop rs capt parent made)"
  using keys
proof (induction capt arbitrary: parent parents made)
  case Nil
  show ?case by simp
next
  case (Cons v vs)
  from Cons.prems have ok: "paths_ok rs parent parents"
    and rel: "\<forall>j < length rs. parents ! j = stands_for made j"
    and k0: "0 \<le> Key v" and rest: "\<forall>v \<in> set vs. 0 \<le> Key v" by simp_all
  have len: "length parents = length rs" using ok by (simp add: paths_ok_def)
  show ?case
  proof (cases "Key v < int (length rs) \<and> A (rs ! nat (Key v)) \<noteq> - 1")
    case False
    with Cons.IH [OF ok rel rest] k0 len show ?thesis by auto
  next
    case True
    then have kl: "nat (Key v) < length rs" using k0 by (simp add: nat_less_iff)
    let ?child = "Node (capName v) (rs ! nat (Key v)) []"
    show ?thesis
    proof (cases "Key v = 0")
      case k: True
      have at: "node_at parent [] = Some parent" by simp
      from paths_ok_update [OF ok _ at, of 0 ?child] kl k
      have ok': "paths_ok rs (append_at parent [] ?child) (parents[0 := Some [length (Children parent)]])"
        by simp
      from stands_for_update [OF len rel, of 0 "[length (Children parent)]"] kl k
      have rel': "\<forall>j < length rs. parents[0 := Some [length (Children parent)]] ! j
                    = stands_for ((0, [length (Children parent)]) # made) j" by simp
      from Cons.IH [OF ok' rel' rest] k True len show ?thesis by simp
    next
      case False
      then have i1: "1 \<le> nat (Key v)" using k0 by simp
      then have ne: "nat (Key v) \<noteq> 0" by simp
      have fi: "nat (Key v) \<le> f" using kl fuel by simp
      let ?pth = "climb rs made (nat (Key v))"
      from walk_climb [OF len rel i1 kl fi]
      have w: "walk f (parentIndex_of rs) parents (nat (Key v)) = Ret ?pth" .
      from walk_returns [OF len _ i1 kl fi] ok kl obtain pth j where
        w': "walk f (parentIndex_of rs) parents (nat (Key v)) = Ret pth"
        and j: "j < nat (Key v)" "parents ! j = Some pth"
        by (auto simp: paths_ok_def)
      from w w' have pe: "pth = ?pth" by simp
      have "j < length parents" using j(1) kl len by simp
      with ok j(2) have "node_at parent pth \<noteq> None" unfolding paths_ok_def by blast
      then obtain pn where at: "node_at parent ?pth = Some pn" using pe by auto
      from paths_ok_update [OF ok kl at, of ?child]
      have ok': "paths_ok rs (append_at parent ?pth ?child)
                   (parents[nat (Key v) := Some (?pth @ [length (Children pn)])])" .
      from stands_for_update [OF len rel kl, of "?pth @ [length (Children pn)]"]
      have rel': "\<forall>j < length rs. parents[nat (Key v) := Some (?pth @ [length (Children pn)])] ! j
                    = stands_for ((nat (Key v), ?pth @ [length (Children pn)]) # made) j" .
      from Cons.IH [OF ok' rel' rest] False True len k0 w at ne show ?thesis
        by (simp add: Let_def)
    qed
  qed
qed

lemma CreateCaptureNodes_spec:
  assumes "\<forall>v \<in> set capt. 0 \<le> Key v" and "length mo div 2 \<le> f"
  shows "CreateCaptureNodes f data pos mo parent capt = Ret (spec_capture_nodes mo parent capt)"
proof -
  have rel: "\<forall>j < length (ranges_of mo). parents_init (length (ranges_of mo)) ! j = stands_for [] j"
    by (simp add: stands_for_init)
  from capture_loop_spec [of capt "ranges_of mo" f parent "parents_init (length (ranges_of mo))" "[]",
      OF assms(1) _ paths_ok_init rel] assms(2)
  show ?thesis by (simp add: CreateCaptureNodes_def spec_capture_nodes_def)
qed


lemma climb_first:
  "\<exists>k. 1 \<le> k \<and> stands_for made ((enclosing rs ^^ k) i) = Some (climb rs made i) \<and>
       (\<forall>k'. 1 \<le> k' \<and> k' < k \<longrightarrow> stands_for made ((enclosing rs ^^ k') i) = None)"
proof (induction rs made i rule: climb.induct)
  case (1 rs made i)
  show ?case
  proof (cases "stands_for made (enclosing rs i)")
    case (Some pth)
    then have "climb rs made i = pth" by (subst climb.simps) simp
    with Some show ?thesis by (intro exI [of _ 1]) simp
  next
    case None
    then have c: "climb rs made i = climb rs made (enclosing rs i)" by (subst climb.simps) simp
    from 1 [OF None] obtain k where k: "1 \<le> k"
      "stands_for made ((enclosing rs ^^ k) (enclosing rs i)) = Some (climb rs made (enclosing rs i))"
      "\<forall>k'. 1 \<le> k' \<and> k' < k \<longrightarrow> stands_for made ((enclosing rs ^^ k') (enclosing rs i)) = None"
      by blast
    show ?thesis
    proof (intro exI [of _ "Suc k"] conjI allI impI)
      show "1 \<le> Suc k" by simp
      show "stands_for made ((enclosing rs ^^ Suc k) i) = Some (climb rs made i)"
        using k(2) c by (simp add: funpow_swap1)
      fix k' assume a: "1 \<le> k' \<and> k' < Suc k"
      show "stands_for made ((enclosing rs ^^ k') i) = None"
      proof (cases "k' = 1")
        case True
        then show ?thesis using None by simp
      next
        case False
        with a obtain m where m: "k' = Suc m" "1 \<le> m" "m < k" by (cases k') auto
        from k(3) m have "stands_for made ((enclosing rs ^^ m) (enclosing rs i)) = None" by simp
        then show ?thesis using m(1) by (simp add: funpow_swap1)
      qed
    qed
  qed
qed

lemma spec_capture_nodes_count:
  assumes "\<forall>v \<in> set capt. 0 \<le> Key v"
  shows "num_nodes (spec_capture_nodes mo parent capt)
           = num_nodes parent + length (filter (present mo) capt)"
proof -
  have le: "length mo div 2 \<le> length mo div 2" by simp
  from CreateCaptureNodes_returns [OF assms le, of "[]" 0 parent]
    CreateCaptureNodes_spec [OF assms le, of "[]" 0 parent]
  show ?thesis by simp
qed

text \<open>
  C3, amended. With no negative group index in the capture list (and fuel for
  the walk), \<^verbatim>\<open>CreateCaptureNodes\<close>, from the pointers it sets up itself, returns
  the tree of the parenting rule: one node per capture whose group is in range
  and whose start is not \<open>-1\<close>, the other captures skipped; the node of group 0
  appended to the caller's parent node; the node of any other group appended to
  the node that stands for the first group, up the chain of enclosing groups,
  that stands for one, where a group stands for its newest node and groups 0 and
  1 stand for the caller's parent node as long as they have no node of their
  own. The enclosing group of groups 0 and 1 is group 0; that of a group
  \<open>i \<ge> 2\<close> is the highest-indexed group below \<open>i\<close> whose span covers it (equal
  spans counting), group 0 when there is none.
\<close>

theorem capture_nodes_parenting:
  "(\<forall>v \<in> set capt. 0 \<le> Key v) \<Longrightarrow> length mo div 2 \<le> f \<Longrightarrow> rs = ranges_of mo \<Longrightarrow>
     CreateCaptureNodes f data pos mo parent capt = Ret (spec_capture_nodes mo parent capt) \<and>
     num_nodes (spec_capture_nodes mo parent capt)
       = num_nodes parent + length (filter (present mo) capt) \<and>
     (\<forall>i. i < 2 \<longrightarrow> enclosing rs i = 0) \<and>
     (\<forall>i. 2 \<le> i \<and> i < length rs \<longrightarrow> nearest_cover rs i (enclosing rs i)) \<and>
     (\<forall>made i. \<exists>k. 1 \<le> k \<and> stands_for made ((enclosing rs ^^ k) i) = Some (climb rs made i) \<and>
        (\<forall>k'. 1 \<le> k' \<and> k' < k \<longrightarrow> stands_for made ((enclosing rs ^^ k') i) = None))"
proof (intro conjI)
  assume a: "\<forall>v \<in> set capt. 0 \<le> Key v" "length mo div 2 \<le> f"
  show "CreateCaptureNodes f data pos mo parent capt = Ret (spec_capture_nodes mo parent capt)"
    using a by (rule CreateCaptureNodes_spec)
  show "num_nodes (spec_capture_nodes mo parent capt)
       = num_nodes parent + length (filter (present mo) capt)"
    using a(1) by (rule spec_capture_nodes_count)
next
  show "\<forall>i. i < 2 \<longrightarrow> enclosing rs i = 0" by (simp add: enclosing_def)
next
  show "\<forall>i. 2 \<le> i \<and> i < length rs \<longrightarrow> nearest_cover rs i (enclosing rs i)"
    by (simp add: enclosing_nearest)
next
  show "\<forall>made i. \<exists>k. 1 \<le> k \<and> stands_for made ((enclosing rs ^^ k) i) = Some (climb rs made i) \<and>
        (\<forall>k'. 1 \<le> k' \<and> k' < k \<longrightarrow> stands_for made ((enclosing rs ^^ k') i) = None)"
    using climb_first by blast
qed

text \<open>
  C3, as the claim states it, fails: with captures for groups 0, 1 and 2 the
  node of group 1 is a child of the node of group 0, not of the caller's parent
  node, and the node of group 2 is a child of the node of group 1, although
  group 0, the lowest-indexed group that covers it, has a node.
\<close>

theorem capture_parent_counterexample:
  "CreateCaptureNodes fuel12 [] 0 mo3 parent3 capt3 =
     Ret (Node ''p'' \<lparr>A = 0, B = 10\<rparr>
            [Node ''z'' \<lparr>A = 0, B = 10\<rparr>
               [Node ''a'' \<lparr>A = 0, B = 10\<rparr> [Node ''b'' \<lparr>A = 2, B = 5\<rparr> []]]]) \<and>
   Covers (ranges_of mo3 ! 0) (ranges_of mo3 ! 2) \<and> Covers (ranges_of mo3 ! 1) (ranges_of mo3 ! 2)"
  by (simp add: model_defs mo3_def capt3_def parent3_def fuel12_def)

lemma rs3: "ranges_of mo3 = [\<lparr>A = 0, B = 10\<rparr>, \<lparr>A = 0, B = 10\<rparr>, \<lparr>A = 2, B = 5\<rparr>]"
  by (simp add: ranges_of_def mo3_def upt_conv_Cons)

lemma rev_upt_2: "rev [0..<2] = [1, 0]"
  by (simp add: numeral_2_eq_2)

lemma enclosing3:
  "enclosing [\<lparr>A = 0, B = 10\<rparr>, \<lparr>A = 0, B = 10\<rparr>, \<lparr>A = 2, B = 5\<rparr>] 2 = 1"
  "enclosing [\<lparr>A = 0, B = 10\<rparr>, \<lparr>A = 0, B = 10\<rparr>, \<lparr>A = 2, B = 5\<rparr>] (Suc 0) = 0"
  by (simp_all add: enclosing_def rev_upt_2 Covers_def Begin_of_def End_of_def)

lemma climb3:
  "climb [\<lparr>A = 0, B = 10\<rparr>, \<lparr>A = 0, B = 10\<rparr>, \<lparr>A = 2, B = 5\<rparr>] [(0, [0])] 2 = []"
  "climb [\<lparr>A = 0, B = 10\<rparr>, \<lparr>A = 0, B = 10\<rparr>, \<lparr>A = 2, B = 5\<rparr>] [(0, [0])] (Suc 0) = [0]"
  "climb [\<lparr>A = 0, B = 10\<rparr>, \<lparr>A = 0, B = 10\<rparr>, \<lparr>A = 2, B = 5\<rparr>] [(Suc 0, [0, 0]), (0, [0])] 2 = [0, 0]"
  by (subst climb.simps, simp add: enclosing3 stands_for_def)+


lemma spec3_zd:
  "spec_capture_nodes mo3 parent3 [Capture 0 ''z'', Capture 2 ''d'']
     = Node ''p'' \<lparr>A = 0, B = 10\<rparr> [Node ''z'' \<lparr>A = 0, B = 10\<rparr> [], Node ''d'' \<lparr>A = 2, B = 5\<rparr> []]"
  by (simp add: spec_capture_nodes_def rs3 climb3 parent3_def Append_def Let_def)

lemma spec3_zab:
  "spec_capture_nodes mo3 parent3 capt3
     = Node ''p'' \<lparr>A = 0, B = 10\<rparr>
            [Node ''z'' \<lparr>A = 0, B = 10\<rparr>
               [Node ''a'' \<lparr>A = 0, B = 10\<rparr> [Node ''b'' \<lparr>A = 2, B = 5\<rparr> []]]]"
  by (simp add: spec_capture_nodes_def rs3 climb3 parent3_def capt3_def Append_def Let_def)

text \<open>
  The match of three groups with captures for groups 0 and 2 only: group 1
  encloses group 2 and has no node, so it stands for the caller's parent and
  the node of group 2 becomes a sibling of the node of group 0. With a capture
  for each group the three nodes nest.
\<close>

theorem capture_nodes_parenting_witness:
  "map Key [Capture 0 ''z'', Capture 2 ''d''] = [0, 2] \<and> length mo3 div 2 \<le> fuel12 \<and>
   CreateCaptureNodes fuel12 [] 0 mo3 parent3 [Capture 0 ''z'', Capture 2 ''d'']
     = Ret (Node ''p'' \<lparr>A = 0, B = 10\<rparr>
              [Node ''z'' \<lparr>A = 0, B = 10\<rparr> [], Node ''d'' \<lparr>A = 2, B = 5\<rparr> []]) \<and>
   num_nodes (Node ''p'' \<lparr>A = 0, B = 10\<rparr>
              [Node ''z'' \<lparr>A = 0, B = 10\<rparr> [], Node ''d'' \<lparr>A = 2, B = 5\<rparr> []])
     = num_nodes parent3 + 2 \<and>
   CreateCaptureNodes fuel12 [] 0 mo3 parent3 capt3
     = Ret (Node ''p'' \<lparr>A = 0, B = 10\<rparr>
              [Node ''z'' \<lparr>A = 0, B = 10\<rparr>
                 [Node ''a'' \<lparr>A = 0, B = 10\<rparr> [Node ''b'' \<lparr>A = 2, B = 5\<rparr> []]]]) \<and>
   enclosing (ranges_of mo3) 1 = 0 \<and> enclosing (ranges_of mo3) 2 = 1 \<and>
   nearest_cover (ranges_of mo3) 2 1 \<and>
   stands_for [(0, [0])] 1 = Some [] \<and> stands_for [(0, [0])] 0 = Some [0] \<and>
   stands_for [(0, [0])] 2 = None \<and>
   climb (ranges_of mo3) [(0, [0])] 2 = []"
proof -
  have h2: "length mo3 div 2 \<le> fuel12" by (simp add: mo3_def fuel12_def)
  have k1: "\<forall>v \<in> set [Capture 0 ''z'', Capture 2 ''d'']. 0 \<le> Key v" by simp
  have k2: "\<forall>v \<in> set capt3. 0 \<le> Key v" by (simp add: capt3_def)
  note T1 = capture_nodes_parenting [of "[Capture 0 ''z'', Capture 2 ''d'']" mo3 fuel12
      "ranges_of mo3" "[]" 0 parent3, OF k1 h2 refl]
  note T2 = capture_nodes_parenting [of capt3 mo3 fuel12 "ranges_of mo3" "[]" 0 parent3,
      OF k2 h2 refl]
  have pr: "filter (present mo3) [Capture 0 ''z'', Capture 2 ''d''] = [Capture 0 ''z'', Capture 2 ''d'']"
    by (simp add: present_def mo3_def)
  from T1 [THEN conjunct1]
  have c1: "CreateCaptureNodes fuel12 [] 0 mo3 parent3 [Capture 0 ''z'', Capture 2 ''d'']
     = Ret (Node ''p'' \<lparr>A = 0, B = 10\<rparr>
              [Node ''z'' \<lparr>A = 0, B = 10\<rparr> [], Node ''d'' \<lparr>A = 2, B = 5\<rparr> []])"
    by (simp only: spec3_zd)
  from T1 [THEN conjunct2, THEN conjunct1]
  have c2: "num_nodes (Node ''p'' \<lparr>A = 0, B = 10\<rparr>
              [Node ''z'' \<lparr>A = 0, B = 10\<rparr> [], Node ''d'' \<lparr>A = 2, B = 5\<rparr> []])
     = num_nodes parent3 + 2"
    by (simp only: spec3_zd pr) simp
  from T2 [THEN conjunct1]
  have c3: "CreateCaptureNodes fuel12 [] 0 mo3 parent3 capt3
     = Ret (Node ''p'' \<lparr>A = 0, B = 10\<rparr>
              [Node ''z'' \<lparr>A = 0, B = 10\<rparr>
                 [Node ''a'' \<lparr>A = 0, B = 10\<rparr> [Node ''b'' \<lparr>A = 2, B = 5\<rparr> []]]])"
    by (simp only: spec3_zab)
  from T1 [THEN conjunct2, THEN conjunct2, THEN conjunct1, rule_format, of 1]
  have c4: "enclosing (ranges_of mo3) 1 = 0" by simp
  have e2: "enclosing (ranges_of mo3) 2 = 1" by (simp add: rs3 enclosing3)
  have lrs: "length (ranges_of mo3) = 3" by (simp add: rs3)
  have side: "2 \<le> (2 :: nat) \<and> 2 < length (ranges_of mo3)" by (simp add: mo3_def)
  from T1 [THEN conjunct2, THEN conjunct2, THEN conjunct2, THEN conjunct1, rule_format, OF side]
  have c5: "nearest_cover (ranges_of mo3) 2 1" by (simp only: e2)
  have st: "stands_for [(0, [0])] 1 = Some []" "stands_for [(0, [0])] 0 = Some [0]"
    "stands_for [(0, [0])] 2 = None"
    by (simp_all add: stands_for_def)
  have cl: "climb (ranges_of mo3) [(0, [0])] 2 = []" by (simp add: rs3 climb3)
  from h2 c1 c2 c3 c4 e2 c5 st cl show ?thesis by (intro conjI) simp_all
qed

section \<open>Regions whose end regex does not match\<close>
















lemma cache_ok_set_cache:
  "cache_ok w data \<Longrightarrow> (cachedData c = data \<longrightarrow> opt_ok data (cachedMatch c)) \<Longrightarrow>
     cache_ok (set_cache w p c) data"
  by (simp add: cache_ok_def set_cache_def)

lemma cache_ok_same: "caches w' = caches w \<Longrightarrow> cache_ok w data \<Longrightarrow> cache_ok w' data"
  by (simp add: cache_ok_def)

lemma cache_ok_entry:
  "cache_ok w data \<Longrightarrow> cachedData (caches w p) = data \<Longrightarrow> opt_ok data (cachedMatch (caches w p))"
  by (simp add: cache_ok_def)

lemma Load_caches: "Load dp w f = (w', r) \<Longrightarrow> caches w' = caches w"
  by (auto simp: Load_def split: option.splits)

lemma GetLanguage_caches: "GetLanguage dp w ident = (w', r) \<Longrightarrow> caches w' = caches w"
proof -
  assume g: "GetLanguage dp w ident = (w', r)"
  obtain w1 r1 where l: "LanguageFromScope dp w ident = (w1, r1)"
    by (cases "LanguageFromScope dp w ident")
  have c1: "caches w1 = caches w"
    using l by (auto simp: LanguageFromScope_def split: option.splits dest: Load_caches)
  show ?thesis
  proof (cases r1)
    case None
    with g l have "Load dp w1 ident = (w', r)" by (simp add: GetLanguage_def)
    from Load_caches [OF this] c1 show ?thesis by simp
  next
    case (Some li)
    with g l c1 show ?thesis by (simp add: GetLanguage_def)
  qed
qed

lemma record_match_ok:
  "cache_ok w data \<Longrightarrow> opt_ok data ret \<Longrightarrow> record_match w p data pat ret = Ret (pat', ret', w') \<Longrightarrow>
     cache_ok w' data \<and> opt_ok data ret'"
  by (auto simp: record_match_def intro!: cache_ok_set_cache)

lemma pop_cached_ok: "cache_ok w data \<Longrightarrow> pop_cached w p i = Ret w' \<Longrightarrow> cache_ok w' data"
  by (auto simp: pop_cached_def cache_ok_def set_cache_def split: if_splits)

lemma matcher_okD1:
  assumes "matcher_ok dp data n" "cache_ok w data" "Cache dp n w p data pos = Ret (pat, ret, w')"
  shows "cache_ok w' data \<and> opt_ok data ret"
proof -
  from assms(1) have "\<forall>w p pos pat ret w'. cache_ok w data \<longrightarrow>
      Cache dp n w p data pos = Ret (pat, ret, w') \<longrightarrow> cache_ok w' data \<and> opt_ok data ret"
    unfolding matcher_ok_def by (rule conjunct1)
  with assms(2,3) show ?thesis by blast
qed

lemma matcher_okD2:
  assumes "matcher_ok dp data n" "cache_ok w data" "Cache_miss dp n w p data pos = Ret (pat, ret, w')"
  shows "cache_ok w' data \<and> opt_ok data ret"
proof -
  from assms(1) have "\<forall>w p pos pat ret w'. cache_ok w data \<longrightarrow>
      Cache_miss dp n w p data pos = Ret (pat, ret, w') \<longrightarrow> cache_ok w' data \<and> opt_ok data ret"
    unfolding matcher_ok_def by (rule conjunct2 [THEN conjunct1])
  with assms(2,3) show ?thesis by blast
qed

lemma matcher_okD3:
  assumes "matcher_ok dp data n" "cache_ok w data" "opt_ok data ret0"
    "FirstMatch_loop dp n w p data pos i s pat0 ret0 = Ret (pat, ret, w')"
  shows "cache_ok w' data \<and> opt_ok data ret"
proof -
  from assms(1) have "\<forall>w p pos i s pat0 ret0 pat ret w'. cache_ok w data \<longrightarrow> opt_ok data ret0 \<longrightarrow>
          FirstMatch_loop dp n w p data pos i s pat0 ret0 = Ret (pat, ret, w') \<longrightarrow>
          cache_ok w' data \<and> opt_ok data ret"
    unfolding matcher_ok_def by (rule conjunct2 [THEN conjunct2])
  with assms(2,3,4) show ?thesis by blast
qed

lemma cache_ok_touch:
  "cache_ok w data \<Longrightarrow> cachedData c = cachedData (caches w p) \<Longrightarrow>
   cachedMatch c = cachedMatch (caches w p) \<Longrightarrow> cache_ok (set_cache w p c) data"
  by (simp add: cache_ok_def set_cache_def)

lemma matcher_ok_0: "matcher_ok dp data 0"
  by (simp add: matcher_ok_def Cache.simps)

lemma matcher_ok_Cache:
  assumes ih: "matcher_ok dp data n" and ok: "cache_ok w data"
    and run: "Cache dp (Suc n) w p data pos = Ret (pat, ret, w')"
  shows "cache_ok w' data \<and> opt_ok data ret"
proof -
  let ?c = "caches w p"
  have miss: "\<And>w0. cache_ok w0 data \<Longrightarrow> Cache_miss dp n w0 p data pos = Ret (pat, ret, w') \<Longrightarrow>
                cache_ok w' data \<and> opt_ok data ret"
    by (rule matcher_okD2 [OF ih])
  show ?thesis
  proof (cases "cachedData ?c = data")
    case False
    have "cache_ok (set_cache w p (?c\<lparr>cachedPatterns := None\<rparr>)) data"
      using ok by (simp add: cache_ok_touch)
    moreover from run False
    have "Cache_miss dp n (set_cache w p (?c\<lparr>cachedPatterns := None\<rparr>)) p data pos = Ret (pat, ret, w')"
      by (simp add: Cache.simps Let_def)
    ultimately show ?thesis by (rule miss)
  next
    case True
    show ?thesis
    proof (cases "cachedMatch ?c")
      case None
      with run True ok show ?thesis by (simp add: Cache.simps Let_def opt_ok_def)
    next
      case (Some m)
      have m: "opt_ok data (Some m)" using cache_ok_entry [OF ok True] Some by simp
      from run True Some obtain m0 where m0: "idx m 0 = Ret m0"
        and rest: "(if m0 \<ge> pos then
                 (case cachedPat ?c of
                    None \<Rightarrow> Panic
                  | Some cp \<Rightarrow>
                      if cachedMatch (caches w cp) \<noteq> None then
                        Ret (Some cp, Some m, set_cache w p (?c\<lparr>hits := hits ?c + 1\<rparr>))
                      else Cache_miss dp n w p data pos)
               else Cache_miss dp n w p data pos) = Ret (pat, ret, w')"
        by (auto simp: Cache.simps Let_def bindR_Ret_iff)
      show ?thesis
      proof (cases "m0 \<ge> pos \<and> (\<exists>cp. cachedPat ?c = Some cp \<and> cachedMatch (caches w cp) \<noteq> None)")
        case True
        with rest have "ret = Some m" "w' = set_cache w p (?c\<lparr>hits := hits ?c + 1\<rparr>)"
          by auto
        moreover have "cache_ok (set_cache w p (?c\<lparr>hits := hits ?c + 1\<rparr>)) data"
          using ok by (simp add: cache_ok_touch)
        ultimately show ?thesis using m by simp
      next
        case False
        with rest have "Cache_miss dp n w p data pos = Ret (pat, ret, w')"
          by (auto split: if_splits option.splits)
        with ok show ?thesis by (rule miss)
      qed
    qed
  qed
qed


lemma bind_record_ok:
  assumes "bindR X (\<lambda>(pat, ret, w3). record_match w3 p data pat ret) = Ret (pat', ret', w')"
    and "\<And>pat ret w3. X = Ret (pat, ret, w3) \<Longrightarrow> cache_ok w3 data \<and> opt_ok data ret"
  shows "cache_ok w' data \<and> opt_ok data ret'"
proof -
  from assms(1) obtain pat ret w3 where x: "X = Ret (pat, ret, w3)"
    and r: "record_match w3 p data pat ret = Ret (pat', ret', w')"
    by (auto simp: bindR_Ret_iff)
  from assms(2) [OF x] r show ?thesis by (auto dest: record_match_ok)
qed

lemma matcher_ok_Cache_miss:
  assumes so: "spans_ok dp data" and ih: "matcher_ok dp data n" and ok: "cache_ok w data"
    and run: "Cache_miss dp (Suc n) w p data pos = Ret (pat, ret, w')"
  shows "cache_ok w' data \<and> opt_ok data ret"
proof -
  from run obtain P where P: "deref w p = Some P"
    by (cases "deref w p") (simp_all add: Cache.simps)
  define w1 where "w1 = (if cachedPatterns (caches w p) = None
                     then set_cache w p ((caches w p)\<lparr>cachedPatterns := Some (child_addrs p P)\<rparr>)
                     else w)"
  define w2 where "w2 = set_cache w1 p ((caches w1 p)\<lparr>misses := misses (caches w1 p) + 1\<rparr>)"
  have ok1: "cache_ok w1 data"
    unfolding w1_def using ok by (simp add: cache_ok_touch)
  have ok2: "cache_ok w2 data"
    unfolding w2_def using ok1 by (simp add: cache_ok_touch)
  have fnd: "\<And>r. opt_ok data (Find dp r data pos)" using so by (simp add: spans_ok_def)
  have none: "opt_ok data None" by (simp add: opt_ok_def)
  have ihC: "\<And>w0 q pat ret w3. cache_ok w0 data \<Longrightarrow> Cache dp n w0 q data pos = Ret (pat, ret, w3) \<Longrightarrow>
               cache_ok w3 data \<and> opt_ok data ret"
    by (rule matcher_okD1 [OF ih])
  have ihF: "\<And>w0 pat ret w3. cache_ok w0 data \<Longrightarrow>
               FirstMatch_loop dp n w0 p data pos 0 (- 1) None None = Ret (pat, ret, w3) \<Longrightarrow>
               cache_ok w3 data \<and> opt_ok data ret"
    by (rule matcher_okD3 [OF ih _ none])
  from run P have body:
    "(if \<not> Empty dp (Match P) then
             record_match w2 p data (Some p) (Find dp (Match P) data pos)
           else if \<not> Empty dp (Begin P) then
             record_match w2 p data (Some p) (Find dp (Begin P) data pos)
           else if Include P \<noteq> [] then
             (if hd (Include P) = CHR ''#'' then
                (case map_of (Repository (langs w2 ! inst p)) (tl (Include P)) of
                   Some p2 \<Rightarrow>
                     bindR (Cache dp n w2 (PAddr (inst p) (Some (tl (Include P))) []) data pos)
                       (\<lambda>(pat, ret, w3). record_match w3 p data pat ret)
                 | None \<Rightarrow> record_match w2 p data None None)
              else if hd (Include P) = CHR ''$'' then
                record_match w2 p data None None
              else
                (case GetLanguage dp w2 (Include P) of
                   (w3, None) \<Rightarrow>
                     record_match (w3\<lparr>failed := insert (Include P) (failed w3)\<rparr>) p data None None
                 | (w3, Some l) \<Rightarrow> Cache dp n w3 (PAddr l None []) data pos))
           else
             bindR (FirstMatch_loop dp n w2 p data pos 0 (- 1) None None)
               (\<lambda>(pat, ret, w3). record_match w3 p data pat ret)) = Ret (pat, ret, w')"
    unfolding w1_def w2_def by (simp add: Cache.simps Let_def)
  consider (m) "\<not> Empty dp (Match P)"
    | (b) "Empty dp (Match P)" "\<not> Empty dp (Begin P)"
    | (hash) "Empty dp (Match P)" "Empty dp (Begin P)" "Include P \<noteq> []" "hd (Include P) = CHR ''#''"
    | (dollar) "Empty dp (Match P)" "Empty dp (Begin P)" "Include P \<noteq> []"
        "hd (Include P) \<noteq> CHR ''#''" "hd (Include P) = CHR ''$''"
    | (ext) "Empty dp (Match P)" "Empty dp (Begin P)" "Include P \<noteq> []"
        "hd (Include P) \<noteq> CHR ''#''" "hd (Include P) \<noteq> CHR ''$''"
    | (grp) "Empty dp (Match P)" "Empty dp (Begin P)" "Include P = []"
    by blast
  then show ?thesis
  proof cases
    case m
    with body have "record_match w2 p data (Some p) (Find dp (Match P) data pos) = Ret (pat, ret, w')"
      by simp
    from record_match_ok [OF ok2 fnd this] show ?thesis .
  next
    case b
    with body have "record_match w2 p data (Some p) (Find dp (Begin P) data pos) = Ret (pat, ret, w')"
      by simp
    from record_match_ok [OF ok2 fnd this] show ?thesis .
  next
    case hash
    show ?thesis
    proof (cases "map_of (Repository (langs w2 ! inst p)) (tl (Include P))")
      case None
      with hash body have "record_match w2 p data None None = Ret (pat, ret, w')" by simp
      from record_match_ok [OF ok2 none this] show ?thesis .
    next
      case (Some p2)
      with hash body have
        "bindR (Cache dp n w2 (PAddr (inst p) (Some (tl (Include P))) []) data pos)
           (\<lambda>(pat, ret, w3). record_match w3 p data pat ret) = Ret (pat, ret, w')" by simp
      then show ?thesis by (rule bind_record_ok) (rule ihC [OF ok2])
    qed
  next
    case dollar
    with body have "record_match w2 p data None None = Ret (pat, ret, w')" by simp
    from record_match_ok [OF ok2 none this] show ?thesis .
  next
    case ext
    obtain w3 r where g: "GetLanguage dp w2 (Include P) = (w3, r)"
      by (cases "GetLanguage dp w2 (Include P)")
    have ok3: "cache_ok w3 data" using GetLanguage_caches [OF g] ok2 by (rule cache_ok_same)
    show ?thesis
    proof (cases r)
      case None
      with ext body g have
        "record_match (w3\<lparr>failed := insert (Include P) (failed w3)\<rparr>) p data None None
           = Ret (pat, ret, w')" by simp
      moreover have "cache_ok (w3\<lparr>failed := insert (Include P) (failed w3)\<rparr>) data"
        using ok3 by (simp add: cache_ok_def)
      ultimately show ?thesis using none by (auto dest: record_match_ok)
    next
      case (Some l)
      with ext body g have "Cache dp n w3 (PAddr l None []) data pos = Ret (pat, ret, w')" by simp
      from ihC [OF ok3 this] show ?thesis .
    qed
  next
    case grp
    with body have
      "bindR (FirstMatch_loop dp n w2 p data pos 0 (- 1) None None)
         (\<lambda>(pat, ret, w3). record_match w3 p data pat ret) = Ret (pat, ret, w')" by simp
    then show ?thesis by (rule bind_record_ok) (rule ihF [OF ok2])
  qed
qed


lemma matcher_ok_FirstMatch_loop:
  assumes ih: "matcher_ok dp data n" and ok: "cache_ok w data" and r0: "opt_ok data ret0"
    and run: "FirstMatch_loop dp (Suc n) w p data pos i s pat0 ret0 = Ret (pat, ret, w')"
  shows "cache_ok w' data \<and> opt_ok data ret"
proof (cases "i < length (live w p)")
  case False
  with run ok r0 show ?thesis by (simp add: Cache.simps)
next
  case True
  have ihC: "\<And>w0 q pat ret w3. cache_ok w0 data \<Longrightarrow> Cache dp n w0 q data pos = Ret (pat, ret, w3) \<Longrightarrow>
               cache_ok w3 data \<and> opt_ok data ret"
    by (rule matcher_okD1 [OF ih])
  have ihF: "\<And>w0 i s pat0 ret0. cache_ok w0 data \<Longrightarrow> opt_ok data ret0 \<Longrightarrow>
               FirstMatch_loop dp n w0 p data pos i s pat0 ret0 = Ret (pat, ret, w') \<Longrightarrow>
               cache_ok w' data \<and> opt_ok data ret"
    by (rule matcher_okD3 [OF ih])
  from run True obtain ip im w1 where
    c: "Cache dp n w (live w p ! i) data pos = Ret (ip, im, w1)"
    and rest: "(case im of
            Some m \<Rightarrow>
              bindR (idx m 0) (\<lambda>m0.
                if s < 0 \<or> s > m0 then
                  (if m0 = pos then Ret (ip, im, w1)
                   else FirstMatch_loop dp n w1 p data pos (Suc i) m0 ip im)
                else FirstMatch_loop dp n w1 p data pos (Suc i) s pat0 ret0)
          | None \<Rightarrow>
              bindR (pop_cached w1 p i) (\<lambda>w''.
                FirstMatch_loop dp n w'' p data pos i s pat0 ret0)) = Ret (pat, ret, w')"
    by (auto simp: Cache.simps bindR_Ret_iff)
  from ihC [OF ok c] have ok1: "cache_ok w1 data" and im: "opt_ok data im" by simp_all
  show ?thesis
  proof (cases im)
    case None
    with rest obtain w2 where p: "pop_cached w1 p i = Ret w2"
      and l: "FirstMatch_loop dp n w2 p data pos i s pat0 ret0 = Ret (pat, ret, w')"
      by (auto simp: bindR_Ret_iff)
    from pop_cached_ok [OF ok1 p] have "cache_ok w2 data" .
    from ihF [OF this r0 l] show ?thesis .
  next
    case (Some m)
    with rest obtain m0 where
      l: "(if s < 0 \<or> s > m0 then
                  (if m0 = pos then Ret (ip, im, w1)
                   else FirstMatch_loop dp n w1 p data pos (Suc i) m0 ip im)
                else FirstMatch_loop dp n w1 p data pos (Suc i) s pat0 ret0) = Ret (pat, ret, w')"
      by (auto simp: bindR_Ret_iff)
    show ?thesis
    proof (cases "s < 0 \<or> s > m0")
      case False
      with l have "FirstMatch_loop dp n w1 p data pos (Suc i) s pat0 ret0 = Ret (pat, ret, w')"
        by simp
      from ihF [OF ok1 r0 this] show ?thesis .
    next
      case True
      show ?thesis
      proof (cases "m0 = pos")
        case True
        with l \<open>s < 0 \<or> s > m0\<close> have "ret = im" "w' = w1" by auto
        with ok1 im show ?thesis by simp
      next
        case False
        with l True have "FirstMatch_loop dp n w1 p data pos (Suc i) m0 ip im = Ret (pat, ret, w')"
          by auto
        from ihF [OF ok1 im this] show ?thesis .
      qed
    qed
  qed
qed

lemma matcher_ok_all: "spans_ok dp data \<Longrightarrow> matcher_ok dp data n"
proof (induction n)
  case 0
  show ?case by (rule matcher_ok_0)
next
  case (Suc n)
  from Suc have ih: "matcher_ok dp data n" by simp
  have a: "\<forall>w p pos pat ret w'. cache_ok w data \<longrightarrow>
      Cache dp (Suc n) w p data pos = Ret (pat, ret, w') \<longrightarrow> cache_ok w' data \<and> opt_ok data ret"
  proof (intro allI impI)
    fix w p pos pat ret w'
    assume "cache_ok w data" "Cache dp (Suc n) w p data pos = Ret (pat, ret, w')"
    then show "cache_ok w' data \<and> opt_ok data ret" by (rule matcher_ok_Cache [OF ih])
  qed
  have b: "\<forall>w p pos pat ret w'. cache_ok w data \<longrightarrow>
      Cache_miss dp (Suc n) w p data pos = Ret (pat, ret, w') \<longrightarrow> cache_ok w' data \<and> opt_ok data ret"
  proof (intro allI impI)
    fix w p pos pat ret w'
    assume "cache_ok w data" "Cache_miss dp (Suc n) w p data pos = Ret (pat, ret, w')"
    then show "cache_ok w' data \<and> opt_ok data ret"
      by (rule matcher_ok_Cache_miss [OF Suc.prems ih])
  qed
  have c: "\<forall>w p pos i s pat0 ret0 pat ret w'. cache_ok w data \<longrightarrow> opt_ok data ret0 \<longrightarrow>
          FirstMatch_loop dp (Suc n) w p data pos i s pat0 ret0 = Ret (pat, ret, w') \<longrightarrow>
          cache_ok w' data \<and> opt_ok data ret"
  proof (intro allI impI)
    fix w p pos i s pat0 ret0 pat ret w'
    assume "cache_ok w data" "opt_ok data ret0"
      "FirstMatch_loop dp (Suc n) w p data pos i s pat0 ret0 = Ret (pat, ret, w')"
    then show "cache_ok w' data \<and> opt_ok data ret"
      by (rule matcher_ok_FirstMatch_loop [OF ih])
  qed
  show ?case unfolding matcher_ok_def by (rule conjI [OF a conjI [OF b c]])
qed

lemma Cache_within:
  assumes "spans_ok dp data" "cache_ok w data" "Cache dp n w p data pos = Ret (pat, ret, w')"
  shows "cache_ok w' data \<and> opt_ok data ret"
  by (rule matcher_okD1 [OF matcher_ok_all [OF assms(1)] assms(2,3)])


















lemma fresh_cache_ok: "cache_ok (fresh l) data"
  by (simp add: cache_ok_def fresh_def empty_cache_def opt_ok_def)


lemma block_cache:
  "Cache toy fuel12 (fresh lang_block) (PAddr 0 None [0]) data_block 0
     = Ret (Some (PAddr 0 None [0]), Some [0, 2], world_block)"
  by (simp add: run_defs lang_block_def block_pattern_def data_block_def world_block_def)






section \<open>Sub-patterns before the end of a region\<close>

lemma names_matchD1:
  assumes "names_match dp data n" "Cache dp n w p data pos = Ret (pat, Some m, w')"
  shows "pat \<noteq> None"
proof -
  from assms(1) have "\<forall>w p pos pat m w'. Cache dp n w p data pos = Ret (pat, Some m, w') \<longrightarrow> pat \<noteq> None"
    unfolding names_match_def by (rule conjunct1)
  with assms(2) show ?thesis by blast
qed

lemma names_matchD2:
  assumes "names_match dp data n" "Cache_miss dp n w p data pos = Ret (pat, Some m, w')"
  shows "pat \<noteq> None"
proof -
  from assms(1) have "\<forall>w p pos pat m w'. Cache_miss dp n w p data pos = Ret (pat, Some m, w') \<longrightarrow> pat \<noteq> None"
    unfolding names_match_def by (rule conjunct2 [THEN conjunct1])
  with assms(2) show ?thesis by blast
qed

lemma names_matchD3:
  assumes "names_match dp data n" "ret0 \<noteq> None \<longrightarrow> pat0 \<noteq> None"
    "FirstMatch_loop dp n w p data pos i s pat0 ret0 = Ret (pat, Some m, w')"
  shows "pat \<noteq> None"
proof -
  from assms(1) have "\<forall>w p pos i s pat0 ret0 pat m w'. (ret0 \<noteq> None \<longrightarrow> pat0 \<noteq> None) \<longrightarrow>
          FirstMatch_loop dp n w p data pos i s pat0 ret0 = Ret (pat, Some m, w') \<longrightarrow> pat \<noteq> None"
    unfolding names_match_def by (rule conjunct2 [THEN conjunct2])
  with assms(2,3) show ?thesis by blast
qed

lemma names_match_0: "names_match dp data 0"
  by (simp add: names_match_def Cache.simps)

lemma names_match_Cache:
  assumes ih: "names_match dp data n"
    and run: "Cache dp (Suc n) w p data pos = Ret (pat, Some m, w')"
  shows "pat \<noteq> None"
  using run names_matchD2 [OF ih]
  by (auto simp: Cache.simps Let_def bindR_Ret_iff split: if_splits option.splits)

lemma names_match_Cache_miss:
  assumes ih: "names_match dp data n"
    and run: "Cache_miss dp (Suc n) w p data pos = Ret (pat, Some m, w')"
  shows "pat \<noteq> None"
  using run names_matchD1 [OF ih] names_matchD3 [OF ih, of None None]
  by (auto simp: Cache.simps Let_def bindR_Ret_iff record_match_def
           split: if_splits option.splits prod.splits)

lemma names_match_FirstMatch_loop:
  assumes ih: "names_match dp data n" and acc: "ret0 \<noteq> None \<longrightarrow> pat0 \<noteq> None"
    and run: "FirstMatch_loop dp (Suc n) w p data pos i s pat0 ret0 = Ret (pat, Some m, w')"
  shows "pat \<noteq> None"
proof (cases "i < length (live w p)")
  case False
  with run acc show ?thesis by (simp add: Cache.simps)
next
  case True
  with run obtain ip im w1 where c: "Cache dp n w (live w p ! i) data pos = Ret (ip, im, w1)"
    and rest: "(case im of
            Some m \<Rightarrow>
              bindR (idx m 0) (\<lambda>m0.
                if s < 0 \<or> s > m0 then
                  (if m0 = pos then Ret (ip, im, w1)
                   else FirstMatch_loop dp n w1 p data pos (Suc i) m0 ip im)
                else FirstMatch_loop dp n w1 p data pos (Suc i) s pat0 ret0)
          | None \<Rightarrow>
              bindR (pop_cached w1 p i) (\<lambda>w''.
                FirstMatch_loop dp n w'' p data pos i s pat0 ret0)) = Ret (pat, Some m, w')"
    by (auto simp: Cache.simps bindR_Ret_iff)
  show ?thesis
  proof (cases im)
    case None
    with rest obtain w2 where "FirstMatch_loop dp n w2 p data pos i s pat0 ret0 = Ret (pat, Some m, w')"
      by (auto simp: bindR_Ret_iff)
    from names_matchD3 [OF ih acc this] show ?thesis .
  next
    case (Some m1)
    from names_matchD1 [OF ih c [unfolded Some]] have ip: "im \<noteq> None \<longrightarrow> ip \<noteq> None" by simp
    from rest Some obtain m0 where
      r2: "(if s < 0 \<or> s > m0 then
                  (if m0 = pos then Ret (ip, im, w1)
                   else FirstMatch_loop dp n w1 p data pos (Suc i) m0 ip im)
                else FirstMatch_loop dp n w1 p data pos (Suc i) s pat0 ret0) = Ret (pat, Some m, w')"
      by (auto simp: bindR_Ret_iff)
    show ?thesis
    proof (cases "s < 0 \<or> s > m0")
      case False
      with r2 have "FirstMatch_loop dp n w1 p data pos (Suc i) s pat0 ret0 = Ret (pat, Some m, w')" by simp
      from names_matchD3 [OF ih acc this] show ?thesis .
    next
      case True
      show ?thesis
      proof (cases "m0 = pos")
        case True
        with r2 \<open>s < 0 \<or> s > m0\<close> ip show ?thesis by auto
      next
        case False
        with r2 True have "FirstMatch_loop dp n w1 p data pos (Suc i) m0 ip im = Ret (pat, Some m, w')" by simp
        from names_matchD3 [OF ih ip this] show ?thesis .
      qed
    qed
  qed
qed

lemma names_match_all: "names_match dp data n"
proof (induction n)
  case 0
  show ?case by (rule names_match_0)
next
  case (Suc n)
  have a: "\<forall>w p pos pat m w'. Cache dp (Suc n) w p data pos = Ret (pat, Some m, w') \<longrightarrow> pat \<noteq> None"
    by (intro allI impI) (rule names_match_Cache [OF Suc])
  have b: "\<forall>w p pos pat m w'. Cache_miss dp (Suc n) w p data pos = Ret (pat, Some m, w') \<longrightarrow> pat \<noteq> None"
    by (intro allI impI) (rule names_match_Cache_miss [OF Suc])
  have c: "\<forall>w p pos i s pat0 ret0 pat m w'. (ret0 \<noteq> None \<longrightarrow> pat0 \<noteq> None) \<longrightarrow>
          FirstMatch_loop dp (Suc n) w p data pos i s pat0 ret0 = Ret (pat, Some m, w') \<longrightarrow> pat \<noteq> None"
    by (intro allI impI) (rule names_match_FirstMatch_loop [OF Suc])
  show ?case unfolding names_match_def by (rule conjI [OF a conjI [OF b c]])
qed

lemma FirstMatch_names:
  assumes "FirstMatch dp n w p data pos = Ret (pat, Some m, w')"
  shows "\<exists>p2. pat = Some p2"
proof -
  have acc: "(None :: int list option) \<noteq> None \<longrightarrow> (None :: paddr option) \<noteq> None" by simp
  from names_matchD3 [OF names_match_all acc assms [unfolded FirstMatch_def]]
  show ?thesis by auto
qed

lemma CreateNode_loop_end_found:
  assumes i: "i < int (length data)" and f: "Find dp (End P) data i = Some em"
    and em: "2 \<le> length em"
  shows "CreateNode_loop dp (Suc n) w p P data ret i e0 found =
    (if length (live w p) > 0 then
              bindR (FirstMatch dp n w p data i) (\<lambda>(pattern2, match2, w').
                case match2 of
                  None \<Rightarrow> bindR (CreateCaptureNodes n data i em ret
                       (pick_captures (EndCaptures P) (Captures P)))
                (\<lambda>ret'. Ret (ret', em ! 1, w'))
                | Some m2 \<Rightarrow>
                    bindR (idx m2 0) (\<lambda>m20.
                      if m20 < em ! 0 \<or> (m20 = em ! 0 \<and> A (Range ret) = B (Range ret))
                      then (case pattern2 of
                 None \<Rightarrow> Panic
               | Some p2 \<Rightarrow>
                   bindR (CreateNode dp n w' p2 data i m2) (\<lambda>(r, w'').
                     CreateNode_loop dp n w'' p P data (Append ret r) (B (Range r)) (em ! 1) True))
                      else bindR (CreateCaptureNodes n data i em ret
                       (pick_captures (EndCaptures P) (Captures P)))
                (\<lambda>ret'. Ret (ret', em ! 1, w'))))
            else bindR (CreateCaptureNodes n data i em ret
                       (pick_captures (EndCaptures P) (Captures P)))
                (\<lambda>ret'. Ret (ret', em ! 1, w)))"
proof -
  from em have i1: "idx em 1 = Ret (em ! 1)" and i0: "idx em 0 = Ret (em ! 0)"
    by (auto simp: idx_def)
  show ?thesis
  proof (cases "length (live w p) > 0")
    case False
    with i f i1 show ?thesis by (simp add: CreateNode.simps interleave_def del: One_nat_def)
  next
    case True
    show ?thesis
    proof (cases "FirstMatch dp n w p data i")
      case Timeout
      with i f i1 True show ?thesis by (simp add: CreateNode.simps interleave_def del: One_nat_def)
    next
      case Panic
      with i f i1 True show ?thesis by (simp add: CreateNode.simps interleave_def del: One_nat_def)
    next
      case (Ret x)
      obtain pat2 m2o w1 where x: "x = (pat2, m2o, w1)" by (cases x)
      show ?thesis
      proof (cases m2o)
        case None
        with Ret x i f i1 True show ?thesis by (simp add: CreateNode.simps interleave_def del: One_nat_def)
      next
        case (Some m2)
        show ?thesis
        proof (cases "idx m2 0")
          case (Ret m20)
          with \<open>FirstMatch dp n w p data i = Ret x\<close> x Some i f i1 i0 True show ?thesis
            by (simp add: CreateNode.simps interleave_def del: One_nat_def)
        next
          case Timeout
          with \<open>FirstMatch dp n w p data i = Ret x\<close> x Some i f i1 i0 True show ?thesis
            by (simp add: CreateNode.simps interleave_def del: One_nat_def)
        next
          case Panic
          with \<open>FirstMatch dp n w p data i = Ret x\<close> x Some i f i1 i0 True show ?thesis
            by (simp add: CreateNode.simps interleave_def del: One_nat_def)
        qed
      qed
    qed
  qed
qed

text \<open>
  C4. One turn of the loop of \<^verbatim>\<open>CreateNode\<close> with the cursor \<open>i\<close> inside the input
  and a match \<open>em\<close> of the end regex from \<open>i\<close>; \<open>m2o\<close> is what the search among the
  live sub-patterns returns, null when the live list is empty. If a sub-pattern
  match exists and starts strictly before the end match, or at the same offset
  while the range of the outer node is still empty, the turn builds the node of
  the sub-pattern, appends it to the outer node, moves the cursor to the end of
  that node and goes on with the loop, a sub-pattern now consumed. Otherwise the
  end match wins: the turn adds the end captures and leaves the loop with the
  end offset of the end match as the end of the region.
\<close>

theorem interleaving_rule:
  "i < int (length data) \<and> Find dp (End P) data i = Some em \<and> 2 \<le> length em \<and>
   (if live w p = [] then pat2 = None \<and> m2o = None \<and> w1 = w
    else FirstMatch dp n w p data i = Ret (pat2, m2o, w1)) \<and>
   (\<forall>m2. m2o = Some m2 \<longrightarrow> m2 \<noteq> []) \<longrightarrow>
   (\<forall>m2. m2o = Some m2 \<and>
      (m2 ! 0 < em ! 0 \<or> (m2 ! 0 = em ! 0 \<and> A (Range ret) = B (Range ret))) \<longrightarrow>
      (\<exists>p2. pat2 = Some p2 \<and>
         CreateNode_loop dp (Suc n) w p P data ret i e0 found =
           bindR (CreateNode dp n w1 p2 data i m2) (\<lambda>(r, w2).
             CreateNode_loop dp n w2 p P data (Append ret r) (B (Range r)) (em ! 1) True))) \<and>
   (m2o = None \<or>
      (\<exists>m2. m2o = Some m2 \<and>
         \<not> (m2 ! 0 < em ! 0 \<or> (m2 ! 0 = em ! 0 \<and> A (Range ret) = B (Range ret)))) \<longrightarrow>
      CreateNode_loop dp (Suc n) w p P data ret i e0 found =
        bindR (CreateCaptureNodes n data i em ret (pick_captures (EndCaptures P) (Captures P)))
          (\<lambda>ret'. Ret (ret', em ! 1, w1)))"
proof (intro impI, elim conjE)
  assume i: "i < int (length data)" and f: "Find dp (End P) data i = Some em"
    and em: "2 \<le> length em"
    and fm: "if live w p = [] then pat2 = None \<and> m2o = None \<and> w1 = w
             else FirstMatch dp n w p data i = Ret (pat2, m2o, w1)"
    and ne: "\<forall>m2. m2o = Some m2 \<longrightarrow> m2 \<noteq> []"
  note step = CreateNode_loop_end_found [OF i f em, of n w p ret e0 found]
  show "(\<forall>m2. m2o = Some m2 \<and>
      (m2 ! 0 < em ! 0 \<or> (m2 ! 0 = em ! 0 \<and> A (Range ret) = B (Range ret))) \<longrightarrow>
      (\<exists>p2. pat2 = Some p2 \<and>
         CreateNode_loop dp (Suc n) w p P data ret i e0 found =
           bindR (CreateNode dp n w1 p2 data i m2) (\<lambda>(r, w2).
             CreateNode_loop dp n w2 p P data (Append ret r) (B (Range r)) (em ! 1) True))) \<and>
   (m2o = None \<or>
      (\<exists>m2. m2o = Some m2 \<and>
         \<not> (m2 ! 0 < em ! 0 \<or> (m2 ! 0 = em ! 0 \<and> A (Range ret) = B (Range ret)))) \<longrightarrow>
      CreateNode_loop dp (Suc n) w p P data ret i e0 found =
        bindR (CreateCaptureNodes n data i em ret (pick_captures (EndCaptures P) (Captures P)))
          (\<lambda>ret'. Ret (ret', em ! 1, w1)))"
  proof (cases "live w p = []")
    case True
    with fm have m: "m2o = None" and w: "w1 = w" by simp_all
    show ?thesis unfolding m w using True step by (simp del: CreateNode_loop.simps One_nat_def)
  next
    case False
    with fm have run: "FirstMatch dp n w p data i = Ret (pat2, m2o, w1)" by simp
    show ?thesis
    proof (cases m2o)
      case None
      with False run step show ?thesis by (simp del: CreateNode_loop.simps One_nat_def)
    next
      case (Some m2)
      with ne have "m2 \<noteq> []" by simp
      then have i0: "idx m2 0 = Ret (m2 ! 0)" by (simp add: idx_def)
      from FirstMatch_names [OF run [unfolded Some]] obtain p2 where p2: "pat2 = Some p2" ..
      from False run Some i0 p2 step show ?thesis by (simp del: CreateNode_loop.simps One_nat_def)
    qed
  qed
qed


lemmas note_defs = note_pattern_def lang_note_def data_note_def note_cache_def todo_cache_def
  note_world_def note_w0_def
  note_w1_def note_w2_def note_node_def todo_node_def

lemma note_begin:
  "Cache toy fuel12 (fresh lang_note) (PAddr 0 None [0]) data_note 0
     = Ret (Some (PAddr 0 None [0]), Some [0, 2], note_w0)"
  by (simp add: run_defs note_defs)

lemma note_end_2: "Find toy (End note_pattern) data_note 2 = Some [8, 10]"
  by (simp add: toy_defs note_defs)

lemma note_end_7: "Find toy (End note_pattern) data_note 7 = Some [8, 10]"
  by (simp add: toy_defs note_defs)

lemma note_sub_2:
  "FirstMatch toy fuel12 note_w0 (PAddr 0 None [0]) data_note 2
     = Ret (Some (PAddr 0 None [0, 0]), Some [3, 7], note_w1)"
  by (simp add: run_defs note_defs)

lemma note_sub_7:
  "FirstMatch toy fuel12 note_w1 (PAddr 0 None [0]) data_note 7 = Ret (None, None, note_w2)"
  by (simp add: run_defs note_defs)

lemma note_child:
  "CreateNode toy fuel12 note_w1 (PAddr 0 None [0, 0]) data_note 2 [3, 7] = Ret (todo_node, note_w1)"
  by (simp add: run_defs note_defs)

lemma note_live_0: "live note_w0 (PAddr 0 None [0]) = [PAddr 0 None [0, 0]]"
  by (simp add: live_def note_defs)

lemma note_live_1: "live note_w1 (PAddr 0 None [0]) = [PAddr 0 None [0, 0]]"
  by (simp add: live_def note_defs)

lemma note_captures:
  "CreateCaptureNodes fuel12 data_note 7 [8, 10] (note_node [todo_node])
     (pick_captures (EndCaptures note_pattern) (Captures note_pattern)) = Ret (note_node [todo_node])"
  by (simp add: run_defs note_defs)

lemma note_run:
  "outcome (CreateNode toy fuel12 note_w0 (PAddr 0 None [0]) data_note 0 [0, 2])
     = Ret (Node ''note'' \<lparr>A = 0, B = 10\<rparr> [todo_node])"
  by (simp add: outcome_def run_defs note_defs)


lemma note_ranges:
  "Range (note_node cs) = \<lparr>A = 0, B = 2\<rparr>" "Append (note_node []) todo_node = note_node [todo_node]"
  "B (Range todo_node) = 7" "int (length data_note) = 10"
  by (simp_all add: note_defs Append_def)

text \<open>The two turns over \<open><< TODO >>\<close>: from offset 2 the sub-pattern match at 3 is
  before the end match at 8 and is taken; from offset 7 no sub-pattern matches
  and the region closes at 10.\<close>

theorem interleaving_rule_witness:
  "Find toy (End note_pattern) data_note 2 = Some [8, 10] \<and>
   FirstMatch toy fuel12 note_w0 (PAddr 0 None [0]) data_note 2
     = Ret (Some (PAddr 0 None [0, 0]), Some [3, 7], note_w1) \<and>
   CreateNode_loop toy (Suc fuel12) note_w0 (PAddr 0 None [0]) note_pattern data_note
       (note_node []) 2 10 False
     = CreateNode_loop toy fuel12 note_w1 (PAddr 0 None [0]) note_pattern data_note
         (note_node [todo_node]) 7 10 True \<and>
   Find toy (End note_pattern) data_note 7 = Some [8, 10] \<and>
   FirstMatch toy fuel12 note_w1 (PAddr 0 None [0]) data_note 7 = Ret (None, None, note_w2) \<and>
   CreateNode_loop toy (Suc fuel12) note_w1 (PAddr 0 None [0]) note_pattern data_note
       (note_node [todo_node]) 7 10 True
     = Ret (note_node [todo_node], 10, note_w2) \<and>
   outcome (CreateNode toy fuel12 note_w0 (PAddr 0 None [0]) data_note 0 [0, 2])
     = Ret (Node ''note'' \<lparr>A = 0, B = 10\<rparr> [todo_node])"
proof -
  note T = interleaving_rule [where dp = toy and data = data_note and P = note_pattern
      and p = "PAddr 0 None [0]" and em = "[8, 10]" and n = fuel12 and ?e0.0 = 10]
  have pre1: "2 < int (length data_note) \<and> Find toy (End note_pattern) data_note 2 = Some [8, 10] \<and>
      2 \<le> length [8, 10 :: int] \<and>
      (if live note_w0 (PAddr 0 None [0]) = []
       then Some (PAddr 0 None [0, 0]) = None \<and> Some [3, 7] = None \<and> note_w1 = note_w0
       else FirstMatch toy fuel12 note_w0 (PAddr 0 None [0]) data_note 2
              = Ret (Some (PAddr 0 None [0, 0]), Some [3, 7], note_w1)) \<and>
      (\<forall>m2. Some [3, 7] = Some m2 \<longrightarrow> m2 \<noteq> ([] :: int list))"
    by (simp add: note_ranges note_end_2 note_live_0 note_sub_2)
  from T [where i = 2 and w = note_w0 and ?pat2.0 = "Some (PAddr 0 None [0, 0])" and m2o = "Some [3, 7]"
      and ?w1.0 = note_w1 and ret = "note_node []" and found = False, rule_format, OF pre1,
      THEN conjunct1, rule_format, of "[3, 7]"]
  have a: "CreateNode_loop toy (Suc fuel12) note_w0 (PAddr 0 None [0]) note_pattern data_note
       (note_node []) 2 10 False
     = CreateNode_loop toy fuel12 note_w1 (PAddr 0 None [0]) note_pattern data_note
         (note_node [todo_node]) 7 10 True"
    by (simp add: note_child note_ranges del: CreateNode_loop.simps)
  have pre2: "7 < int (length data_note) \<and> Find toy (End note_pattern) data_note 7 = Some [8, 10] \<and>
      2 \<le> length [8, 10 :: int] \<and>
      (if live note_w1 (PAddr 0 None [0]) = []
       then (None :: paddr option) = None \<and> (None :: int list option) = None \<and> note_w2 = note_w1
       else FirstMatch toy fuel12 note_w1 (PAddr 0 None [0]) data_note 7 = Ret (None, None, note_w2)) \<and>
      (\<forall>m2. (None :: int list option) = Some m2 \<longrightarrow> m2 \<noteq> [])"
    by (simp add: note_ranges note_end_7 note_live_1 note_sub_7)
  from T [where i = 7 and w = note_w1 and ?pat2.0 = None and m2o = None
      and ?w1.0 = note_w2 and ret = "note_node [todo_node]" and found = True, rule_format, OF pre2,
      THEN conjunct2]
  have b: "CreateNode_loop toy (Suc fuel12) note_w1 (PAddr 0 None [0]) note_pattern data_note
       (note_node [todo_node]) 7 10 True
     = Ret (note_node [todo_node], 10, note_w2)"
    by (simp add: note_captures del: CreateNode_loop.simps)
  from a b note_end_2 note_end_7 note_sub_2 note_sub_7 note_run show ?thesis
    by (simp del: CreateNode_loop.simps)
qed

section \<open>The first match among the children\<close>



lemma bindR_cong_all: "(\<And>x. f x = g x) \<Longrightarrow> bindR m f = bindR m g"
  by (cases m) simp_all











































section \<open>A region that never closes\<close>

lemmas stuck_defs = stuck_pattern_def lang_stuck_def stuck_base_def stuck_begin_def stuck_world_def

lemma stuck_root:
  "Cache toy (Suc (Suc (Suc (Suc (Suc m))))) (fresh lang_stuck) root0 ''<a>'' 0
     = Ret (Some (PAddr 0 None [0]), Some [0, 1], stuck_begin)"
  by (simp add: Cache.simps model_defs toy_defs stuck_defs)

lemma stuck_first:
  "FirstMatch toy (Suc (Suc (Suc m))) stuck_begin (PAddr 0 None [0]) ''<a>'' 1
     = Ret (Some (PAddr 0 None [0, 0]), Some [1, 1], stuck_world 0)"
  by (simp add: Cache.simps model_defs toy_defs stuck_defs)

lemma stuck_again:
  "FirstMatch toy (Suc (Suc m)) (stuck_world h) (PAddr 0 None [0]) ''<a>'' 1
     = Ret (Some (PAddr 0 None [0, 0]), Some [1, 1], stuck_world (h + 1))"
  by (simp add: Cache.simps model_defs toy_defs stuck_defs)

lemma stuck_child:
  "CreateNode toy (Suc m) (stuck_world h) (PAddr 0 None [0, 0]) ''<a>'' 1 [1, 1]
     = Ret (Node ''z'' \<lparr>A = 1, B = 1\<rparr> [], stuck_world h)"
  by (simp add: CreateNode.simps model_defs toy_defs stuck_defs)

lemma stuck_end: "Find toy (End stuck_pattern) ''<a>'' 1 = Some [2, 3]"
  by (simp add: toy_defs stuck_defs)

lemma stuck_live:
  "live (stuck_world h) (PAddr 0 None [0]) = [PAddr 0 None [0, 0]]"
  "live stuck_begin (PAddr 0 None [0]) = [PAddr 0 None [0, 0]]"
  by (simp_all add: live_def stuck_defs)


lemma FirstMatch_fuel_0: "FirstMatch dp 0 w p data pos = Timeout"
  by (simp add: FirstMatch_def Cache.simps)

lemma stuck_first_low:
  "FirstMatch toy (Suc 0) stuck_begin (PAddr 0 None [0]) ''<a>'' 1 = Timeout"
  "FirstMatch toy (Suc (Suc 0)) stuck_begin (PAddr 0 None [0]) ''<a>'' 1 = Timeout"
  by (simp_all add: Cache.simps model_defs toy_defs stuck_defs)

lemma stuck_again_low:
  "FirstMatch toy (Suc 0) (stuck_world h) (PAddr 0 None [0]) ''<a>'' 1 = Timeout"
  by (simp add: Cache.simps model_defs toy_defs stuck_defs)

lemma stuck_turn:
  "CreateNode_loop toy (Suc n) w (PAddr 0 None [0]) stuck_pattern ''<a>'' ret 1 e0 found =
    (if length (live w (PAddr 0 None [0])) > 0 then
              bindR (FirstMatch toy n w (PAddr 0 None [0]) ''<a>'' 1) (\<lambda>(pattern2, match2, w').
                case match2 of
                  None \<Rightarrow> bindR (CreateCaptureNodes n ''<a>'' 1 [2, 3] ret
                       (pick_captures (EndCaptures stuck_pattern) (Captures stuck_pattern)))
                (\<lambda>ret'. Ret (ret', [2, 3] ! 1, w'))
                | Some m2 \<Rightarrow>
                    bindR (idx m2 0) (\<lambda>m20.
                      if m20 < [2, 3] ! 0 \<or> (m20 = [2, 3] ! 0 \<and> A (Range ret) = B (Range ret))
                      then (case pattern2 of
                 None \<Rightarrow> Panic
               | Some p2 \<Rightarrow>
                   bindR (CreateNode toy n w' p2 ''<a>'' 1 m2) (\<lambda>(r, w'').
                     CreateNode_loop toy n w'' (PAddr 0 None [0]) stuck_pattern ''<a>'' (Append ret r)
                       (B (Range r)) ([2, 3] ! 1) True))
                      else bindR (CreateCaptureNodes n ''<a>'' 1 [2, 3] ret
                       (pick_captures (EndCaptures stuck_pattern) (Captures stuck_pattern)))
                (\<lambda>ret'. Ret (ret', [2, 3] ! 1, w'))))
            else bindR (CreateCaptureNodes n ''<a>'' 1 [2, 3] ret
                       (pick_captures (EndCaptures stuck_pattern) (Captures stuck_pattern)))
                (\<lambda>ret'. Ret (ret', [2, 3] ! 1, w)))"
  by (rule CreateNode_loop_end_found [OF _ stuck_end]) simp_all

lemma stuck_loop:
  "CreateNode_loop toy n (stuck_world h) (PAddr 0 None [0]) stuck_pattern ''<a>'' ret 1 e0 found
     = Timeout"
proof (induction n arbitrary: h ret e0 found)
  case 0
  show ?case by (simp add: CreateNode.simps)
next
  case (Suc n)
  show ?case
  proof (cases n)
    case 0
    then show ?thesis
      by (subst stuck_turn) (simp add: stuck_live FirstMatch_fuel_0 del: CreateNode_loop.simps)
  next
    case (Suc n1)
    show ?thesis
    proof (cases n1)
      case 0
      with Suc show ?thesis
        by (subst stuck_turn) (simp add: stuck_live stuck_again_low del: CreateNode_loop.simps)
    next
      case (Suc m)
      have "CreateNode_loop toy (Suc (Suc (Suc m))) (stuck_world h) (PAddr 0 None [0]) stuck_pattern
              ''<a>'' ret 1 e0 found
            = CreateNode_loop toy (Suc (Suc m)) (stuck_world (h + 1)) (PAddr 0 None [0]) stuck_pattern
                ''<a>'' (Append ret (Node ''z'' \<lparr>A = 1, B = 1\<rparr> [])) 1 3 True"
        by (subst stuck_turn)
           (simp add: stuck_live stuck_again idx_def stuck_child del: CreateNode_loop.simps)
      also have "\<dots> = Timeout"
        using Suc.IH [of "h + 1"] \<open>n = Suc n1\<close> \<open>n1 = Suc m\<close> by simp
      finally show ?thesis using \<open>n = Suc n1\<close> \<open>n1 = Suc m\<close> by simp
    qed
  qed
qed


lemma stuck_loop_begin:
  "CreateNode_loop toy n stuck_begin (PAddr 0 None [0]) stuck_pattern ''<a>'' ret 1 e0 found
     = Timeout"
proof -
  consider "n = 0" | "n = Suc 0" | "n = Suc (Suc 0)" | "n = Suc (Suc (Suc 0))"
    | m where "n = Suc (Suc (Suc (Suc m)))"
    by (metis not0_implies_Suc)
  then show ?thesis
  proof cases
    case 1
    then show ?thesis by (simp add: CreateNode.simps)
  next
    case 2
    then show ?thesis
      by (simp only:) (subst stuck_turn, simp add: stuck_live FirstMatch_fuel_0 del: CreateNode_loop.simps)
  next
    case 3
    then show ?thesis
      by (simp only:) (subst stuck_turn, simp add: stuck_live stuck_first_low del: CreateNode_loop.simps)
  next
    case 4
    then show ?thesis
      by (simp only:) (subst stuck_turn, simp add: stuck_live stuck_first_low del: CreateNode_loop.simps)
  next
    case (5 m)
    have "CreateNode_loop toy (Suc (Suc (Suc (Suc m)))) stuck_begin (PAddr 0 None [0]) stuck_pattern
              ''<a>'' ret 1 e0 found
            = CreateNode_loop toy (Suc (Suc (Suc m))) (stuck_world 0) (PAddr 0 None [0]) stuck_pattern
                ''<a>'' (Append ret (Node ''z'' \<lparr>A = 1, B = 1\<rparr> [])) 1 3 True"
      by (subst stuck_turn)
         (simp add: stuck_live stuck_first idx_def stuck_child del: CreateNode_loop.simps)
    also have "\<dots> = Timeout" by (rule stuck_loop)
    finally show ?thesis using 5 by simp
  qed
qed

lemma stuck_node:
  "CreateNode toy n stuck_begin (PAddr 0 None [0]) ''<a>'' 0 [0, 1] = Timeout"
proof (cases n)
  case 0
  then show ?thesis by (simp add: CreateNode.simps)
next
  case (Suc n1)
  have "CreateNode toy (Suc n1) stuck_begin (PAddr 0 None [0]) ''<a>'' 0 [0, 1]
          = bindR (CreateNode_loop toy n1 stuck_begin (PAddr 0 None [0]) stuck_pattern ''<a>''
                     (Node ''r'' \<lparr>A = 0, B = 1\<rparr> []) 1 3 False)
              (\<lambda>(ret3, end, w'). Ret (UpdateRange (set_B ret3 end), w'))"
    by (simp add: CreateNode.simps model_defs toy_defs stuck_defs)
  then show ?thesis using Suc by (simp add: stuck_loop_begin)
qed

lemma stuck_parse_turn: "Parse_turn toy n (fresh lang_stuck) root0 ''<a>'' 0 = Timeout"
proof -
  consider "n = 0" | "n = Suc 0" | "n = Suc (Suc 0)" | "n = Suc (Suc (Suc 0))"
    | "n = Suc (Suc (Suc (Suc 0)))" | m where "n = Suc (Suc (Suc (Suc (Suc m))))"
    by (metis not0_implies_Suc)
  then show ?thesis
  proof cases
    case (6 m)
    have nl: "next_nl ''<a>'' 0 = - 1" by (simp add: next_nl_def)
    show ?thesis unfolding 6 Parse_turn_def
      by (simp add: stuck_root nl stuck_node)
  qed (simp_all add: Parse_turn_def Cache.simps model_defs toy_defs stuck_defs)
qed

lemma stuck_to_string: "to_string [0x3C, 0x61, 0x3E] = ''<a>''"
  by (simp add: to_string_def encode_rune_def char_of_def)

text \<open>
  C7, the calls inside a turn. Over \<open><a>\<close> the range pattern opens at offset 0;
  from the cursor 1 the sub-pattern matches with zero width before the end match
  at 2, its node ends at 1, and the loop of \<^verbatim>\<open>CreateNode\<close> goes on from the same
  cursor with the same matches. So \<^verbatim>\<open>Parse\<close> does not return here, whatever the
  fuel: the budget of the main loop does not bound the loop inside a turn.
\<close>

theorem zero_width_sub_pattern_never_returns:
  "Parse toy n (fresh lang_stuck) 0 [0x3C, 0x61, 0x3E] = Timeout"
proof -
  have "Parse_loop toy n (fresh lang_stuck) root0 ''<a>''
          (Node (ScopeName (langs (fresh lang_stuck) ! 0)) \<lparr>A = 0, B = 0\<rparr> []) 0 (nat maxiter)
        = Timeout"
    by (subst Parse_loop_pos) (simp_all add: maxiter_def stuck_parse_turn)
  then show ?thesis
    by (simp add: Parse_def Parse_body_def stuck_to_string root0_def fresh_def)
qed

end
